theory Spec2Isabelle
  imports Main "HOL-Library.Product_Lexorder" "HOL-Library.List_Lexorder"
begin

section \<open>The Minesweeper knowledge base of \<open>minesweeper.py\<close>\<close>

text \<open>
  A cell is a Python tuple \<open>(i, j)\<close> of unbounded integers.  A \<open>Sentence\<close> object has the
  two fields \<open>cells\<close> (a set of cells) and \<open>count\<close> (an integer); \<open>Sentence.__eq__\<close>
  compares exactly these two fields, which is the equality of the record below.
\<close>

type_synonym cell = "int \<times> int"

record sentence =
  cells :: "cell set"
  count :: int

text \<open>\<open>Sentence.__init__\<close> copies the given set and stores the count.\<close>

definition Sentence :: "cell set \<Rightarrow> int \<Rightarrow> sentence" where
  "Sentence cs n = \<lparr>cells = cs, count = n\<rparr>"

text \<open>\<open>Sentence.known_mines\<close> and \<open>Sentence.known_safes\<close> return \<open>self.cells\<close>.\<close>

definition Sentence_known_mines :: "sentence \<Rightarrow> cell set" where
  "Sentence_known_mines s = (let mine_set = cells s in mine_set)"

definition Sentence_known_safes :: "sentence \<Rightarrow> cell set" where
  "Sentence_known_safes s = (let safe_set = cells s in safe_set)"

text \<open>
  \<open>Sentence.mark_mine\<close> and \<open>Sentence.mark_safe\<close>: the comparison \<open>self.cells > mine_cell\<close>
  of two Python sets is the strict superset test.  The object is updated in place; the
  model returns the updated value.
\<close>

definition Sentence_mark_mine :: "sentence \<Rightarrow> cell \<Rightarrow> sentence" where
  "Sentence_mark_mine s c =
     (let mine_cell = {c} in
      if cells s = mine_cell then s\<lparr>count := 1\<rparr>
      else if mine_cell \<subset> cells s then s\<lparr>cells := cells s - mine_cell, count := count s - 1\<rparr>
      else s)"

definition Sentence_mark_safe :: "sentence \<Rightarrow> cell \<Rightarrow> sentence" where
  "Sentence_mark_safe s c =
     (let safe_cell = {c} in
      if cells s = safe_cell then s\<lparr>count := 0\<rparr>
      else if safe_cell \<subset> cells s then s\<lparr>cells := cells s - safe_cell\<rparr>
      else s)"

subsection \<open>The state of \<open>MinesweeperAI\<close>\<close>

text \<open>
  \<open>self.knowledge\<close> is a Python list of \<open>Sentence\<close> objects.  Every object in it is
  created by a fresh \<open>Sentence(...)\<close> call and appended once, and the final reduction of
  \<open>add_knowledge\<close> keeps at most one position of the old list per group of positions, so
  no object occurs at two positions: a list of sentence values, updated position by
  position, is the list of objects.
\<close>

record ai =
  height :: int
  width :: int
  moves_made :: "cell set"
  mines :: "cell set"
  safes :: "cell set"
  knowledge :: "sentence list"

definition init_ai :: "int \<Rightarrow> int \<Rightarrow> ai" where
  "init_ai h w = \<lparr>height = h, width = w, moves_made = {}, mines = {}, safes = {}, knowledge = []\<rparr>"

definition mark_mine :: "ai \<Rightarrow> cell \<Rightarrow> ai" where
  "mark_mine a c =
     a\<lparr>mines := insert c (mines a),
       knowledge := map (\<lambda>s. Sentence_mark_mine s c) (knowledge a)\<rparr>"

definition mark_safe :: "ai \<Rightarrow> cell \<Rightarrow> ai" where
  "mark_safe a c =
     a\<lparr>safes := insert c (safes a),
       knowledge := map (\<lambda>s. Sentence_mark_safe s c) (knowledge a)\<rparr>"

subsection \<open>Iteration order of Python sets\<close>

text \<open>
  A \<open>for\<close> loop over a Python set visits every element once, in an order the language
  does not fix.  The order is a parameter of the model: \<open>nbr_iter\<close> is the order in which
  \<open>neighbor_cells\<close> is visited (the same unmodified set object is visited up to three
  times), \<open>new_iter i j\<close> the order in which the set \<open>new_set\<close> built for the pair of list
  positions \<open>(i, j)\<close> is visited, and \<open>idx_iter\<close> the order in which \<open>index_set\<close>, a set of
  tuples of list positions, is visited.
\<close>

record iteration =
  nbr_iter :: "cell set \<Rightarrow> cell list"
  new_iter :: "nat \<Rightarrow> nat \<Rightarrow> cell set \<Rightarrow> cell list"
  idx_iter :: "nat list set \<Rightarrow> nat list list"

definition enumerates :: "('a set \<Rightarrow> 'a list) \<Rightarrow> bool" where
  "enumerates f \<longleftrightarrow> (\<forall>S. finite S \<longrightarrow> set (f S) = S \<and> distinct (f S))"

definition valid_iteration :: "iteration \<Rightarrow> bool" where
  "valid_iteration it \<longleftrightarrow>
     enumerates (nbr_iter it) \<and> (\<forall>i j. enumerates (new_iter it i j)) \<and> enumerates (idx_iter it)"

text \<open>One concrete order, used to run the model: ascending in the lexicographic order.\<close>

definition sorted_iteration :: iteration where
  "sorted_iteration =
     \<lparr>nbr_iter = sorted_list_of_set, new_iter = (\<lambda>i j. sorted_list_of_set),
      idx_iter = sorted_list_of_set\<rparr>"

subsection \<open>\<open>MinesweeperAI.add_knowledge\<close>\<close>

text \<open>Lines 199 to 205: record the move, append the sentence \<open>{move} = 0\<close>, mark the move safe.\<close>

definition record_move :: "ai \<Rightarrow> cell \<Rightarrow> ai" where
  "record_move a move =
     mark_safe
       (a\<lparr>moves_made := insert move (moves_made a),
          knowledge := knowledge a @ [Sentence {move} 0]\<rparr>)
       move"

text \<open>
  Lines 209 to 216: the two nested loops over \<open>range(move[0]-1, move[0]+2)\<close> and
  \<open>range(move[1]-1, move[1]+2)\<close> that collect the neighbours inside the board.
\<close>

definition neighbor_cells :: "int \<Rightarrow> int \<Rightarrow> cell \<Rightarrow> cell set" where
  "neighbor_cells h w move =
     fold (\<lambda>i acc.
        fold (\<lambda>j acc.
           if (i, j) = move then acc
           else if 0 \<le> i \<and> i < h \<and> 0 \<le> j \<and> j < w then insert (i, j) acc
           else acc)
         [snd move - 1 .. snd move + 1] acc)
       [fst move - 1 .. fst move + 1] {}"

text \<open>Line 217: the sentence over the neighbours is appended.\<close>

definition add_neighbor_sentence :: "ai \<Rightarrow> cell set \<Rightarrow> int \<Rightarrow> ai" where
  "add_neighbor_sentence a nbrs n = a\<lparr>knowledge := knowledge a @ [Sentence nbrs n]\<rparr>"

text \<open>
  Lines 220 to 234: the marks made from the new count.  The variable \<open>n\<close> is assigned
  inside the loops, so it keeps \<open>-10000\<close> when the set of neighbours is empty.
\<close>

definition direct_marks :: "iteration \<Rightarrow> ai \<Rightarrow> cell set \<Rightarrow> int \<Rightarrow> ai" where
  "direct_marks it a nbrs cnt =
     (let xs = nbr_iter it nbrs;
          (a1, n) =
            (if cnt = 0 then foldl (\<lambda>(b, n) c. (mark_safe b c, 0)) (a, - 10000) xs
             else if cnt = int (card nbrs) then foldl (\<lambda>(b, n) c. (mark_mine b c, 1)) (a, - 10000) xs
             else (a, - 10000))
      in if n \<ge> - 10
         then a1\<lparr>knowledge := knowledge a1 @ map (\<lambda>c. Sentence {c} n) xs\<rparr>
         else a1)"

text \<open>
  Lines 238 to 255: one pass over all ordered pairs of list positions.  The sentences
  are read when the pair is visited, so marks made for earlier pairs are seen; the
  derived sentences are collected in \<open>new_knowledge\<close> and appended after the pass.
\<close>

definition infer_pair :: "iteration \<Rightarrow> nat \<Rightarrow> nat \<Rightarrow> ai \<times> sentence list \<Rightarrow> ai \<times> sentence list" where
  "infer_pair it i j st =
     (let a = fst st; new_knowledge = snd st;
          sen = knowledge a ! i; sentence = knowledge a ! j
      in if sen = sentence then st
         else if cells sen \<subset> cells sentence then
           (let new_set = cells sentence - cells sen;
                new_count = count sentence - count sen;
                xs = new_iter it i j new_set;
                a1 = (if new_count = 0 then foldl mark_safe a xs else a);
                a2 = (if new_count = int (card new_set) then foldl mark_mine a1 xs else a1)
            in (a2, new_knowledge @ [Sentence new_set new_count]))
         else st)"

text \<open>The inner loop \<open>for sentence in self.knowledge\<close> and the outer loop \<open>for sen in self.knowledge\<close>.\<close>

fun infer_row :: "iteration \<Rightarrow> nat \<Rightarrow> nat list \<Rightarrow> ai \<times> sentence list \<Rightarrow> ai \<times> sentence list" where
  "infer_row it i [] st = st"
| "infer_row it i (j # js) st = infer_row it i js (infer_pair it i j st)"

fun infer_rows :: "iteration \<Rightarrow> nat list \<Rightarrow> nat list \<Rightarrow> ai \<times> sentence list \<Rightarrow> ai \<times> sentence list" where
  "infer_rows it [] js st = st"
| "infer_rows it (i # is) js st = infer_rows it is js (infer_row it i js st)"

definition infer_pass :: "iteration \<Rightarrow> ai \<Rightarrow> ai \<times> sentence list" where
  "infer_pass it a =
     (let n = length (knowledge a)
      in infer_rows it [0..<n] [0..<n] (a, []))"

definition subset_inference :: "iteration \<Rightarrow> ai \<Rightarrow> ai" where
  "subset_inference it a =
     (let (a1, new_knowledge) = infer_pass it a
      in a1\<lparr>knowledge := knowledge a1 @ new_knowledge\<rparr>)"

text \<open>
  Lines 257 to 263: \<open>self.safes.union(safe_set)\<close> and \<open>self.mines.union(mine_set)\<close> build
  a new set each and drop it; no field is assigned.
\<close>

definition union_pass :: "ai \<Rightarrow> ai" where
  "union_pass a =
     foldl (\<lambda>b s.
        (let dropped1 = (if count s = 0 then safes b \<union> Sentence_known_safes s else {});
             dropped2 = (if count s = int (card (cells s)) then mines b \<union> Sentence_known_mines s else {})
         in b))
       a (knowledge a)"

text \<open>
  Lines 266 to 279: for every sentence the ascending tuple of positions holding the same
  cell set is put into \<open>index_set\<close> (\<open>sorted(index)\<close> returns a new list that is dropped);
  the sentence at the first position of every tuple is kept.
\<close>

definition index_of :: "sentence list \<Rightarrow> sentence \<Rightarrow> nat list" where
  "index_of K s = filter (\<lambda>i. cells s = cells (K ! i)) [0..<length K]"

definition reduce_knowledge :: "iteration \<Rightarrow> ai \<Rightarrow> ai" where
  "reduce_knowledge it a =
     (let K = knowledge a;
          index_set = set (map (index_of K) K);
          knowledge_reduced = map (\<lambda>index. K ! (index ! 0)) (idx_iter it index_set)
      in a\<lparr>knowledge := knowledge_reduced\<rparr>)"

text \<open>The state after line 217, before any inference.\<close>

definition observe :: "ai \<Rightarrow> cell \<Rightarrow> int \<Rightarrow> ai" where
  "observe a cell cnt =
     (let a1 = record_move a cell;
          nbrs = neighbor_cells (height a1) (width a1) cell
      in add_neighbor_sentence a1 nbrs cnt)"

text \<open>The state after line 263, before the reduction of the list.\<close>

definition inferred :: "iteration \<Rightarrow> ai \<Rightarrow> cell \<Rightarrow> int \<Rightarrow> ai" where
  "inferred it a cell cnt =
     (let a2 = observe a cell cnt;
          nbrs = neighbor_cells (height a2) (width a2) cell;
          a3 = direct_marks it a2 nbrs cnt;
          a4 = subset_inference it a3
      in union_pass a4)"

definition add_knowledge :: "iteration \<Rightarrow> ai \<Rightarrow> cell \<Rightarrow> int \<Rightarrow> ai" where
  "add_knowledge it a cell cnt = reduce_knowledge it (inferred it a cell cnt)"

text \<open>A history of calls, each with the iteration order it happened to use.\<close>

definition run :: "ai \<Rightarrow> (iteration \<times> cell \<times> int) list \<Rightarrow> ai" where
  "run a calls = foldl (\<lambda>b (it, cell, cnt). add_knowledge it b cell cnt) a calls"

subsection \<open>\<open>make_safe_move\<close> and \<open>make_random_move\<close>\<close>

text \<open>
  \<open>random.choice(list(candidates))\<close> lists the set in its iteration order and returns the
  element at a random position below the length; both are parameters.  The methods
  assign no field; the model returns the state next to the result.
\<close>

definition make_safe_move :: "(cell set \<Rightarrow> cell list) \<Rightarrow> (nat \<Rightarrow> nat) \<Rightarrow> ai \<Rightarrow> cell option \<times> ai" where
  "make_safe_move lst randbelow a =
     (let candidates = safes a - moves_made a
      in if card candidates > 0
         then (let xs = lst candidates in (Some (xs ! randbelow (length xs)), a))
         else (None, a))"

definition all_cells :: "int \<Rightarrow> int \<Rightarrow> cell set" where
  "all_cells h w =
     fold (\<lambda>i acc. fold (\<lambda>j acc. insert (i, j) acc) [0 .. w - 1] acc) [0 .. h - 1] {}"

definition make_random_move :: "(cell set \<Rightarrow> cell list) \<Rightarrow> (nat \<Rightarrow> nat) \<Rightarrow> ai \<Rightarrow> cell option \<times> ai" where
  "make_random_move lst randbelow a =
     (let random_candidates = all_cells (height a) (width a) - mines a - moves_made a
      in if card random_candidates > 0
         then (let xs = lst random_candidates in (Some (xs ! randbelow (length xs)), a))
         else (None, a))"

subsection \<open>The board of \<open>Minesweeper\<close>\<close>

text \<open>
  \<open>Minesweeper.board\<close> is a list of \<open>height\<close> rows of \<open>width\<close> booleans.  \<open>nearby_mines\<close>
  reads \<open>board[i][j]\<close> only behind the bounds test, with the same two loops as above.
\<close>

record minesweeper =
  board_height :: int
  board_width :: int
  board :: "bool list list"

definition nearby_mines :: "minesweeper \<Rightarrow> cell \<Rightarrow> int" where
  "nearby_mines g cell =
     fold (\<lambda>i cnt.
        fold (\<lambda>j cnt.
           if (i, j) = cell then cnt
           else if 0 \<le> i \<and> i < board_height g \<and> 0 \<le> j \<and> j < board_width g
                then (if board g ! nat i ! nat j then cnt + 1 else cnt)
                else cnt)
         [snd cell - 1 .. snd cell + 1] cnt)
       [fst cell - 1 .. fst cell + 1] 0"

subsection \<open>Predicates used in the statements\<close>

text \<open>The cells of the board that hold a mine.\<close>

definition mine_cells :: "minesweeper \<Rightarrow> cell set" where
  "mine_cells g =
     {(i, j). 0 \<le> i \<and> i < board_height g \<and> 0 \<le> j \<and> j < board_width g \<and> board g ! nat i ! nat j}"

text \<open>
  A call of \<open>add_knowledge\<close> is truthful for a board when the cell lies on the board, holds
  no mine, and the count is the one \<open>nearby_mines\<close> reports for it.
\<close>

definition truthful :: "minesweeper \<Rightarrow> iteration \<times> cell \<times> int \<Rightarrow> bool" where
  "truthful g call \<longleftrightarrow>
     (case call of (it, cell, cnt) \<Rightarrow>
        valid_iteration it \<and>
        0 \<le> fst cell \<and> fst cell < board_height g \<and> 0 \<le> snd cell \<and> snd cell < board_width g \<and>
        \<not> board g ! nat (fst cell) ! nat (snd cell) \<and>
        cnt = nearby_mines g cell)"

text \<open>A sentence holds for a set of mines when its count is the number of its cells in the set.\<close>

definition holds_in :: "cell set \<Rightarrow> sentence \<Rightarrow> bool" where
  "holds_in M s \<longleftrightarrow> finite (cells s) \<and> count s = int (card (cells s \<inter> M))"

definition sound :: "cell set \<Rightarrow> ai \<Rightarrow> bool" where
  "sound M a \<longleftrightarrow> mines a \<subseteq> M \<and> safes a \<inter> M = {} \<and> (\<forall>s \<in> set (knowledge a). holds_in M s)"

text \<open>The same for the pair of state and derived sentences that the pass carries along.\<close>

definition sound_pass :: "cell set \<Rightarrow> ai \<times> sentence list \<Rightarrow> bool" where
  "sound_pass M st \<longleftrightarrow> sound M (fst st) \<and> (\<forall>d \<in> set (snd st). holds_in M d)"

text \<open>The bound \<open>0 \<le> count \<le> |cells|\<close> on every sentence of the pool.\<close>

definition count_bounded :: "ai \<Rightarrow> bool" where
  "count_bounded a \<longleftrightarrow> (\<forall>s \<in> set (knowledge a). 0 \<le> count s \<and> count s \<le> int (card (cells s)))"

text \<open>
  Direct inference has been applied to a sentence: its cells are in \<open>safes\<close> when its count
  is 0, and in \<open>mines\<close> when its count is the number of its cells.
\<close>

definition marked :: "ai \<Rightarrow> sentence \<Rightarrow> bool" where
  "marked a s \<longleftrightarrow>
     (count s = 0 \<longrightarrow> cells s \<subseteq> safes a) \<and> (count s = int (card (cells s)) \<longrightarrow> cells s \<subseteq> mines a)"

text \<open>
  Python sets are finite; the pass carries along a pool of finite cell sets and derived
  sentences to which direct inference has been applied.
\<close>

definition finite_pool :: "ai \<Rightarrow> bool" where
  "finite_pool a \<longleftrightarrow> (\<forall>s \<in> set (knowledge a). finite (cells s))"

definition marked_pass :: "ai \<times> sentence list \<Rightarrow> bool" where
  "marked_pass st \<longleftrightarrow> finite_pool (fst st) \<and> (\<forall>d \<in> set (snd st). marked (fst st) d)"

text \<open>The pool is closed under subset inference.\<close>

definition subset_fixed :: "ai \<Rightarrow> bool" where
  "subset_fixed a \<longleftrightarrow>
     (\<forall>A \<in> set (knowledge a). \<forall>B \<in> set (knowledge a).
        cells A \<subset> cells B \<longrightarrow> Sentence (cells B - cells A) (count B - count A) \<in> set (knowledge a))"

text \<open>No sentence of the pool has an empty cell set; the same for the pair the pass carries along.\<close>

definition no_empty :: "ai \<Rightarrow> bool" where
  "no_empty a \<longleftrightarrow> (\<forall>s \<in> set (knowledge a). cells s \<noteq> {})"

definition no_empty_pass :: "ai \<times> sentence list \<Rightarrow> bool" where
  "no_empty_pass st \<longleftrightarrow> no_empty (fst st) \<and> (\<forall>d \<in> set (snd st). cells d \<noteq> {})"

text \<open>A call whose cell lies on a board of the given size and whose reduction visits every tuple.\<close>

definition on_board :: "int \<Rightarrow> int \<Rightarrow> iteration \<times> cell \<times> int \<Rightarrow> bool" where
  "on_board h w call \<longleftrightarrow>
     (case call of (it, cell, cnt) \<Rightarrow>
        enumerates (idx_iter it) \<and> 0 \<le> fst cell \<and> fst cell < h \<and> 0 \<le> snd cell \<and> snd cell < w)"

text \<open>The pool holds a sentence with the given cell set.\<close>

definition has_cells :: "cell set \<Rightarrow> ai \<Rightarrow> bool" where
  "has_cells X a \<longleftrightarrow> (\<exists>s \<in> set (knowledge a). cells s = X)"

text \<open>The state after line 234, on which the pass of lines 238 to 255 starts.\<close>

definition before_pass :: "iteration \<Rightarrow> ai \<Rightarrow> cell \<Rightarrow> int \<Rightarrow> ai" where
  "before_pass it a cell cnt =
     direct_marks it (observe a cell cnt) (neighbor_cells (height a) (width a) cell) cnt"

text \<open>The sentences derived by the pass of a call, in the order they are derived.\<close>

definition derived :: "iteration \<Rightarrow> ai \<Rightarrow> cell \<Rightarrow> int \<Rightarrow> sentence list" where
  "derived it a cell cnt = snd (infer_pass it (before_pass it a cell cnt))"

text \<open>
  The state and the sentences derived so far when the pass started on \<open>a\<close> reaches the
  pair of positions \<open>(i, j)\<close>: all rows before \<open>i\<close> are done, and row \<open>i\<close> up to \<open>j\<close>.
\<close>

definition visited :: "iteration \<Rightarrow> ai \<Rightarrow> nat \<Rightarrow> nat \<Rightarrow> ai \<times> sentence list" where
  "visited it a i j =
     infer_row it i [0..<j] (infer_rows it [0..<i] [0..<length (knowledge a)] (a, []))"

text \<open>
  In state \<open>b\<close> the sentence at position \<open>i\<close> has a cell set strictly inside the one at
  position \<open>j\<close>, and \<open>d\<close> is their difference \<open>(B.cells - A.cells, B.count - A.count)\<close>.
\<close>

definition derives :: "ai \<Rightarrow> nat \<Rightarrow> nat \<Rightarrow> sentence \<Rightarrow> bool" where
  "derives b i j d \<longleftrightarrow>
     cells (knowledge b ! i) \<subset> cells (knowledge b ! j) \<and>
     d = Sentence (cells (knowledge b ! j) - cells (knowledge b ! i))
                  (count (knowledge b ! j) - count (knowledge b ! i))"

section \<open>Auxiliary facts\<close>

subsection \<open>Fields after each phase\<close>

lemma mark_safe_fields [simp]:
  "height (mark_safe a c) = height a"
  "width (mark_safe a c) = width a"
  "moves_made (mark_safe a c) = moves_made a"
  "mines (mark_safe a c) = mines a"
  "safes (mark_safe a c) = insert c (safes a)"
  "knowledge (mark_safe a c) = map (\<lambda>s. Sentence_mark_safe s c) (knowledge a)"
  by (simp_all add: mark_safe_def)

lemma mark_mine_fields [simp]:
  "height (mark_mine a c) = height a"
  "width (mark_mine a c) = width a"
  "moves_made (mark_mine a c) = moves_made a"
  "mines (mark_mine a c) = insert c (mines a)"
  "safes (mark_mine a c) = safes a"
  "knowledge (mark_mine a c) = map (\<lambda>s. Sentence_mark_mine s c) (knowledge a)"
  by (simp_all add: mark_mine_def)

lemma foldl_mark_safe_fields [simp]:
  "height (foldl mark_safe a xs) = height a"
  "width (foldl mark_safe a xs) = width a"
  "moves_made (foldl mark_safe a xs) = moves_made a"
  "mines (foldl mark_safe a xs) = mines a"
  "safes (foldl mark_safe a xs) = safes a \<union> set xs"
  "length (knowledge (foldl mark_safe a xs)) = length (knowledge a)"
  by (induction xs arbitrary: a) auto

lemma foldl_mark_mine_fields [simp]:
  "height (foldl mark_mine a xs) = height a"
  "width (foldl mark_mine a xs) = width a"
  "moves_made (foldl mark_mine a xs) = moves_made a"
  "mines (foldl mark_mine a xs) = mines a \<union> set xs"
  "safes (foldl mark_mine a xs) = safes a"
  "length (knowledge (foldl mark_mine a xs)) = length (knowledge a)"
  by (induction xs arbitrary: a) auto

lemma foldl_safe_flag:
  "foldl (\<lambda>(b, n) c. (mark_safe b c, 0)) (a, m) xs = (foldl mark_safe a xs, if xs = [] then m else 0)"
  by (induction xs arbitrary: a m) auto

lemma foldl_mine_flag:
  "foldl (\<lambda>(b, n) c. (mark_mine b c, 1)) (a, m) xs = (foldl mark_mine a xs, if xs = [] then m else 1)"
  by (induction xs arbitrary: a m) auto

lemma direct_marks_eq:
  "direct_marks it a nbrs cnt =
     (let xs = nbr_iter it nbrs in
      if xs = [] then a
      else if cnt = 0 then (foldl mark_safe a xs)\<lparr>knowledge := knowledge (foldl mark_safe a xs) @ map (\<lambda>c. Sentence {c} 0) xs\<rparr>
      else if cnt = int (card nbrs) then (foldl mark_mine a xs)\<lparr>knowledge := knowledge (foldl mark_mine a xs) @ map (\<lambda>c. Sentence {c} 1) xs\<rparr>
      else a)"
  by (simp add: direct_marks_def Let_def foldl_safe_flag foldl_mine_flag)

lemma foldl_preserves:
  assumes "P a" and "\<And>b x. P b \<Longrightarrow> x \<in> set xs \<Longrightarrow> P (f b x)"
  shows "P (foldl f a xs)"
  using assms by (induction xs arbitrary: a) auto

lemma union_pass_id [simp]: "union_pass a = a"
proof -
  have "foldl (\<lambda>b s. b) a ks = a" for ks :: "sentence list"
    by (induction ks) auto
  then show ?thesis by (simp add: union_pass_def Let_def)
qed

lemma reduce_knowledge_fields [simp]:
  "height (reduce_knowledge it a) = height a"
  "width (reduce_knowledge it a) = width a"
  "moves_made (reduce_knowledge it a) = moves_made a"
  "mines (reduce_knowledge it a) = mines a"
  "safes (reduce_knowledge it a) = safes a"
  by (simp_all add: reduce_knowledge_def Let_def)

lemma infer_pair_length [simp]:
  "length (knowledge (fst (infer_pair it i j st))) = length (knowledge (fst st))"
  by (simp add: infer_pair_def Let_def)

lemma infer_row_preserves:
  assumes "P st" and "\<And>st j. P st \<Longrightarrow> j \<in> set js \<Longrightarrow> P (infer_pair it i j st)"
  shows "P (infer_row it i js st)"
  using assms by (induction js arbitrary: st) auto

lemma infer_rows_preserves:
  assumes "P st" and "\<And>st i. P st \<Longrightarrow> i \<in> set is \<Longrightarrow> P (infer_row it i js st)"
  shows "P (infer_rows it is js st)"
  using assms by (induction "is" arbitrary: st) auto

lemma infer_pass_induct:
  assumes base: "P (a, [])"
    and step: "\<And>st i j. P st \<Longrightarrow> length (knowledge (fst st)) = length (knowledge a) \<Longrightarrow>
                 i < length (knowledge a) \<Longrightarrow> j < length (knowledge a) \<Longrightarrow> P (infer_pair it i j st)"
  shows "P (infer_pass it a)"
proof -
  let ?n = "length (knowledge a)"
  let ?Q = "\<lambda>st. P st \<and> length (knowledge (fst st)) = ?n"
  have row: "?Q (infer_row it i [0..<?n] st)" if "?Q st" "i < ?n" for st i
    using that by (intro infer_row_preserves[where P = ?Q]) (auto intro: step)
  have "?Q (infer_rows it [0..<?n] [0..<?n] (a, []))"
  proof (rule infer_rows_preserves[where P = ?Q])
    show "?Q (a, [])" using base by simp
  next
    fix st i
    assume "?Q st" "i \<in> set [0..<?n]"
    then show "?Q (infer_row it i [0..<?n] st)"
      using row[of st i] by simp
  qed
  then show ?thesis by (simp add: infer_pass_def Let_def)
qed

lemma infer_pair_fields [simp]:
  "height (fst (infer_pair it i j st)) = height (fst st)"
  "width (fst (infer_pair it i j st)) = width (fst st)"
  "moves_made (fst (infer_pair it i j st)) = moves_made (fst st)"
  by (simp_all add: infer_pair_def Let_def)

lemma infer_pair_grows:
  "mines (fst st) \<subseteq> mines (fst (infer_pair it i j st))"
  "safes (fst st) \<subseteq> safes (fst (infer_pair it i j st))"
  by (auto simp add: infer_pair_def Let_def)

lemma infer_pass_fields [simp]:
  "height (fst (infer_pass it a)) = height a"
  "width (fst (infer_pass it a)) = width a"
  "moves_made (fst (infer_pass it a)) = moves_made a"
  "length (knowledge (fst (infer_pass it a))) = length (knowledge a)"
proof -
  have "height (fst (infer_pass it a)) = height a \<and> width (fst (infer_pass it a)) = width a \<and>
        moves_made (fst (infer_pass it a)) = moves_made a \<and>
        length (knowledge (fst (infer_pass it a))) = length (knowledge a)"
    by (rule infer_pass_induct) simp_all
  then show "height (fst (infer_pass it a)) = height a" "width (fst (infer_pass it a)) = width a"
    "moves_made (fst (infer_pass it a)) = moves_made a"
    "length (knowledge (fst (infer_pass it a))) = length (knowledge a)" by simp_all
qed

lemma infer_pass_grows:
  "mines a \<subseteq> mines (fst (infer_pass it a))"
  "safes a \<subseteq> safes (fst (infer_pass it a))"
proof -
  have "mines a \<subseteq> mines (fst (infer_pass it a)) \<and> safes a \<subseteq> safes (fst (infer_pass it a))"
  proof (rule infer_pass_induct)
    show "mines a \<subseteq> mines (fst (a, [])) \<and> safes a \<subseteq> safes (fst (a, []))" by simp
  next
    fix st :: "ai \<times> sentence list" and i j
    assume "mines a \<subseteq> mines (fst st) \<and> safes a \<subseteq> safes (fst st)"
    then show "mines a \<subseteq> mines (fst (infer_pair it i j st)) \<and> safes a \<subseteq> safes (fst (infer_pair it i j st))"
      using infer_pair_grows[of st it i j] by blast
  qed
  then show "mines a \<subseteq> mines (fst (infer_pass it a))" "safes a \<subseteq> safes (fst (infer_pass it a))"
    by simp_all
qed

lemma subset_inference_fields [simp]:
  "height (subset_inference it a) = height a"
  "width (subset_inference it a) = width a"
  "moves_made (subset_inference it a) = moves_made a"
  "mines (subset_inference it a) = mines (fst (infer_pass it a))"
  "safes (subset_inference it a) = safes (fst (infer_pass it a))"
  "knowledge (subset_inference it a) = knowledge (fst (infer_pass it a)) @ snd (infer_pass it a)"
  by (simp_all add: subset_inference_def split_beta)

lemma direct_marks_fields [simp]:
  "height (direct_marks it a nbrs cnt) = height a"
  "width (direct_marks it a nbrs cnt) = width a"
  "moves_made (direct_marks it a nbrs cnt) = moves_made a"
  by (simp_all add: direct_marks_eq Let_def)

lemma direct_marks_grows:
  "mines a \<subseteq> mines (direct_marks it a nbrs cnt)"
  "safes a \<subseteq> safes (direct_marks it a nbrs cnt)"
  by (auto simp add: direct_marks_eq Let_def)

lemma observe_fields [simp]:
  "height (observe a cell cnt) = height a"
  "width (observe a cell cnt) = width a"
  "moves_made (observe a cell cnt) = insert cell (moves_made a)"
  "mines (observe a cell cnt) = mines a"
  "safes (observe a cell cnt) = insert cell (safes a)"
  by (simp_all add: observe_def record_move_def add_neighbor_sentence_def Let_def)

lemma inferred_fields [simp]:
  "height (inferred it a cell cnt) = height a"
  "width (inferred it a cell cnt) = width a"
  "moves_made (inferred it a cell cnt) = insert cell (moves_made a)"
  by (simp_all add: inferred_def Let_def)

lemma inferred_eq:
  "inferred it a cell cnt =
     subset_inference it (direct_marks it (observe a cell cnt) (neighbor_cells (height a) (width a) cell) cnt)"
  by (simp add: inferred_def Let_def)

lemma inferred_grows:
  "mines a \<subseteq> mines (inferred it a cell cnt)"
  "safes a \<subseteq> safes (inferred it a cell cnt)"
proof -
  let ?a2 = "observe a cell cnt"
  let ?a3 = "direct_marks it ?a2 (neighbor_cells (height a) (width a) cell) cnt"
  have m: "mines (inferred it a cell cnt) = mines (fst (infer_pass it ?a3))"
    and s: "safes (inferred it a cell cnt) = safes (fst (infer_pass it ?a3))"
    by (simp_all add: inferred_eq)
  have "mines a \<subseteq> mines ?a3" using direct_marks_grows(1)[of ?a2] by simp
  then show "mines a \<subseteq> mines (inferred it a cell cnt)"
    unfolding m using infer_pass_grows(1)[of ?a3 it] by blast
  have "safes a \<subseteq> safes ?a3" using direct_marks_grows(2)[of ?a2] by auto
  then show "safes a \<subseteq> safes (inferred it a cell cnt)"
    unfolding s using infer_pass_grows(2)[of ?a3 it] by blast
qed

lemma add_knowledge_fields [simp]:
  "height (add_knowledge it a cell cnt) = height a"
  "width (add_knowledge it a cell cnt) = width a"
  "moves_made (add_knowledge it a cell cnt) = insert cell (moves_made a)"
  "mines (add_knowledge it a cell cnt) = mines (inferred it a cell cnt)"
  "safes (add_knowledge it a cell cnt) = safes (inferred it a cell cnt)"
  by (simp_all add: add_knowledge_def)

subsection \<open>The reduction of the list\<close>

lemma index_of_cong: "cells s = cells t \<Longrightarrow> index_of K s = index_of K t"
  by (simp add: index_of_def)

lemma index_of_member:
  assumes "s \<in> set K"
  shows "index_of K s \<noteq> []" and "index_of K s ! 0 < length K"
    and "cells (K ! (index_of K s ! 0)) = cells s"
proof -
  from assms obtain p where p: "p < length K" "K ! p = s" by (auto simp: in_set_conv_nth)
  then have "p \<in> set (index_of K s)" by (simp add: index_of_def)
  then show ne: "index_of K s \<noteq> []" by auto
  then have "index_of K s ! 0 \<in> set (index_of K s)" by simp
  then show "index_of K s ! 0 < length K" "cells (K ! (index_of K s ! 0)) = cells s"
    by (simp_all add: index_of_def)
qed

lemma knowledge_reduce:
  "knowledge (reduce_knowledge it a) =
     map (\<lambda>index. knowledge a ! (index ! 0)) (idx_iter it (index_of (knowledge a) ` set (knowledge a)))"
  by (simp add: reduce_knowledge_def Let_def)

lemma idx_iter_set:
  assumes "enumerates (idx_iter it)"
  shows "set (idx_iter it (index_of K ` set K)) = index_of K ` set K"
    and "distinct (idx_iter it (index_of K ` set K))"
  using assms by (simp_all add: enumerates_def)

lemma reduce_subset:
  assumes "enumerates (idx_iter it)"
  shows "set (knowledge (reduce_knowledge it a)) \<subseteq> set (knowledge a)"
proof
  fix t
  let ?K = "knowledge a"
  assume "t \<in> set (knowledge (reduce_knowledge it a))"
  then obtain index where i: "index \<in> set (idx_iter it (index_of ?K ` set ?K))" and t: "t = ?K ! (index ! 0)"
    unfolding knowledge_reduce by auto
  from i have "index \<in> index_of ?K ` set ?K"
    unfolding idx_iter_set(1)[OF assms] .
  then obtain s where "s \<in> set ?K" "index = index_of ?K s" by blast
  then have "index ! 0 < length ?K" by (simp add: index_of_member(2))
  then show "t \<in> set ?K" unfolding t by (rule nth_mem)
qed

lemma reduce_cells:
  assumes "enumerates (idx_iter it)"
  shows "cells ` set (knowledge (reduce_knowledge it a)) = cells ` set (knowledge a)"
proof -
  let ?K = "knowledge a"
  let ?f = "\<lambda>s. cells (?K ! (index_of ?K s ! 0))"
  have "set (knowledge (reduce_knowledge it a)) = (\<lambda>index. ?K ! (index ! 0)) ` (index_of ?K ` set ?K)"
    unfolding knowledge_reduce set_map idx_iter_set(1)[OF assms] ..
  then have "cells ` set (knowledge (reduce_knowledge it a)) = ?f ` set ?K"
    by (simp only: image_image)
  moreover have "?f ` set ?K = cells ` set ?K"
  proof (rule image_cong[OF refl])
    fix s assume "s \<in> set ?K"
    then show "?f s = cells s" by (rule index_of_member(3))
  qed
  ultimately show ?thesis by simp
qed

lemma reduce_distinct:
  assumes "enumerates (idx_iter it)"
  shows "distinct (map cells (knowledge (reduce_knowledge it a)))"
proof -
  let ?K = "knowledge a"
  let ?S = "index_of ?K ` set ?K"
  let ?g = "\<lambda>index. cells (?K ! (index ! 0))"
  have "inj_on ?g ?S"
  proof (rule inj_onI)
    fix x y
    assume "x \<in> ?S" "y \<in> ?S" and eq: "?g x = ?g y"
    then obtain s t where s: "s \<in> set ?K" "x = index_of ?K s" and t: "t \<in> set ?K" "y = index_of ?K t"
      by blast
    have "cells s = ?g x" unfolding s(2) using s(1) by (simp only: index_of_member(3))
    also have "\<dots> = ?g y" by (rule eq)
    also have "\<dots> = cells t" unfolding t(2) using t(1) by (simp only: index_of_member(3))
    finally show "x = y" unfolding s(2) t(2) by (rule index_of_cong)
  qed
  then have "inj_on ?g (set (idx_iter it ?S))"
    unfolding idx_iter_set(1)[OF assms] .
  then have "distinct (map ?g (idx_iter it ?S))"
    using idx_iter_set(2)[OF assms] by (simp only: distinct_map simp_thms)
  moreover have "map cells (knowledge (reduce_knowledge it a)) = map ?g (idx_iter it ?S)"
    unfolding knowledge_reduce by (simp only: map_map comp_def)
  ultimately show ?thesis by simp
qed

lemma enumerates_sorted [simp]: "enumerates (sorted_list_of_set :: ('a::linorder) set \<Rightarrow> 'a list)"
  unfolding enumerates_def by simp

lemma valid_sorted_iteration [simp]: "valid_iteration sorted_iteration"
  unfolding valid_iteration_def sorted_iteration_def by simp

lemma single_mark_safe: "cells s = {x} \<Longrightarrow> cells (Sentence_mark_safe s c) = {x}"
  unfolding Sentence_mark_safe_def Let_def by (cases "x = c") auto

lemma single_mark_mine: "cells s = {x} \<Longrightarrow> cells (Sentence_mark_mine s c) = {x}"
  unfolding Sentence_mark_mine_def Let_def by (cases "x = c") auto

subsection \<open>The sentence of the move\<close>

lemma has_cells_append:
  "has_cells X (a\<lparr>knowledge := knowledge b @ ks\<rparr>) \<longleftrightarrow> has_cells X b \<or> (\<exists>s \<in> set ks. cells s = X)"
  unfolding has_cells_def by auto

lemma single_marks_safe: "has_cells {x} a \<Longrightarrow> has_cells {x} (mark_safe a c)"
proof -
  assume "has_cells {x} a"
  then obtain s where s: "s \<in> set (knowledge a)" "cells s = {x}" unfolding has_cells_def by auto
  then have "Sentence_mark_safe s c \<in> set (knowledge (mark_safe a c))" by simp
  moreover have "cells (Sentence_mark_safe s c) = {x}" using s(2) by (rule single_mark_safe)
  ultimately show ?thesis unfolding has_cells_def by blast
qed

lemma single_marks_mine: "has_cells {x} a \<Longrightarrow> has_cells {x} (mark_mine a c)"
proof -
  assume "has_cells {x} a"
  then obtain s where s: "s \<in> set (knowledge a)" "cells s = {x}" unfolding has_cells_def by auto
  then have "Sentence_mark_mine s c \<in> set (knowledge (mark_mine a c))" by simp
  moreover have "cells (Sentence_mark_mine s c) = {x}" using s(2) by (rule single_mark_mine)
  ultimately show ?thesis unfolding has_cells_def by blast
qed

lemma single_foldl_safe: "has_cells {x} a \<Longrightarrow> has_cells {x} (foldl mark_safe a xs)"
  by (rule foldl_preserves) (simp_all add: single_marks_safe)

lemma single_foldl_mine: "has_cells {x} a \<Longrightarrow> has_cells {x} (foldl mark_mine a xs)"
  by (rule foldl_preserves) (simp_all add: single_marks_mine)

lemma single_infer_pair:
  assumes "has_cells {x} (fst st)"
  shows "has_cells {x} (fst (infer_pair it i j st))"
  using assms unfolding infer_pair_def Let_def
  by (simp add: single_foldl_safe single_foldl_mine)

lemma single_infer_pass:
  assumes "has_cells {x} a"
  shows "has_cells {x} (fst (infer_pass it a))"
  by (rule infer_pass_induct) (simp_all add: assms single_infer_pair)

lemma single_direct_marks:
  assumes "has_cells {x} a"
  shows "has_cells {x} (direct_marks it a nbrs cnt)"
  unfolding direct_marks_eq Let_def
  by (simp add: has_cells_append assms single_foldl_safe single_foldl_mine)

lemma single_observe: "has_cells {cell} (observe a cell cnt)"
proof -
  have "cells (Sentence_mark_safe (Sentence {cell} 0) cell) = {cell}"
    by (rule single_mark_safe) (simp add: Sentence_def)
  then show ?thesis
    unfolding observe_def record_move_def add_neighbor_sentence_def Let_def has_cells_def
    by simp
qed

lemma single_inferred: "has_cells {cell} (inferred it a cell cnt)"
proof -
  have "has_cells {cell} (fst (infer_pass it
          (direct_marks it (observe a cell cnt) (neighbor_cells (height a) (width a) cell) cnt)))"
    by (intro single_infer_pass single_direct_marks single_observe)
  then show ?thesis unfolding inferred_eq has_cells_def by auto
qed

lemma has_cells_reduce:
  assumes "enumerates (idx_iter it)"
  shows "has_cells X (reduce_knowledge it a) \<longleftrightarrow> has_cells X a"
proof -
  have "has_cells X b \<longleftrightarrow> X \<in> cells ` set (knowledge b)" for b
    unfolding has_cells_def by auto
  then show ?thesis using reduce_cells[OF assms, of a] by simp
qed

subsection \<open>The loops over the board\<close>

lemma fold_nested:
  "fold (\<lambda>i acc. fold (\<lambda>j acc. g i j acc) ys acc) xs acc = fold (\<lambda>p acc. g (fst p) (snd p) acc) (List.product xs ys) acc"
proof (induction xs arbitrary: acc)
  case Nil
  show ?case by simp
next
  case (Cons x xs)
  have "fold (\<lambda>p acc. g (fst p) (snd p) acc) (map (Pair x) ys) acc = fold (\<lambda>j acc. g x j acc) ys acc"
    by (simp add: fold_map comp_def)
  then show ?case using Cons.IH by simp
qed

lemma fold_insert_if:
  "fold (\<lambda>p acc. if Q p then insert p acc else acc) ps acc = acc \<union> {p \<in> set ps. Q p}"
  by (induction ps arbitrary: acc) auto

lemma fold_count_if:
  "fold (\<lambda>p (n::int). if Q p then n + 1 else n) ps n = n + int (length (filter Q ps))"
  by (induction ps arbitrary: n) auto

lemma neighbor_cells_eq:
  "neighbor_cells h w move =
     {(i, j). fst move - 1 \<le> i \<and> i \<le> fst move + 1 \<and> snd move - 1 \<le> j \<and> j \<le> snd move + 1 \<and>
              (i, j) \<noteq> move \<and> 0 \<le> i \<and> i < h \<and> 0 \<le> j \<and> j < w}"
proof -
  let ?Q = "\<lambda>p. p \<noteq> move \<and> 0 \<le> fst p \<and> fst p < h \<and> 0 \<le> snd p \<and> snd p < w"
  let ?ps = "List.product [fst move - 1 .. fst move + 1] [snd move - 1 .. snd move + 1]"
  have "neighbor_cells h w move = fold (\<lambda>p acc. if ?Q p then insert p acc else acc) ?ps {}"
    unfolding neighbor_cells_def fold_nested
    by (rule arg_cong[where f = "\<lambda>f. fold f ?ps {}"]) (auto simp add: fun_eq_iff)
  also have "\<dots> = {p \<in> set ?ps. ?Q p}"
    unfolding fold_insert_if by simp
  also have "\<dots> = {(i, j). fst move - 1 \<le> i \<and> i \<le> fst move + 1 \<and> snd move - 1 \<le> j \<and> j \<le> snd move + 1 \<and>
              (i, j) \<noteq> move \<and> 0 \<le> i \<and> i < h \<and> 0 \<le> j \<and> j < w}"
    by auto
  finally show ?thesis .
qed

lemma finite_neighbor_cells [simp]: "finite (neighbor_cells h w move)"
proof -
  have "neighbor_cells h w move \<subseteq> {fst move - 1 .. fst move + 1} \<times> {snd move - 1 .. snd move + 1}"
    unfolding neighbor_cells_eq by auto
  then show ?thesis by (rule finite_subset) simp
qed

lemma nearby_mines_eq:
  "nearby_mines g cell = int (card (neighbor_cells (board_height g) (board_width g) cell \<inter> mine_cells g))"
proof -
  let ?h = "board_height g" and ?w = "board_width g"
  let ?Q = "\<lambda>p. p \<noteq> cell \<and> 0 \<le> fst p \<and> fst p < ?h \<and> 0 \<le> snd p \<and> snd p < ?w"
  let ?R = "\<lambda>p. ?Q p \<and> board g ! nat (fst p) ! nat (snd p)"
  let ?ps = "List.product [fst cell - 1 .. fst cell + 1] [snd cell - 1 .. snd cell + 1]"
  have d: "distinct ?ps" by (simp add: distinct_product)
  have "nearby_mines g cell = fold (\<lambda>p (n::int). if ?R p then n + 1 else n) ?ps 0"
    unfolding nearby_mines_def fold_nested
    by (rule arg_cong[where f = "\<lambda>f. fold f ?ps 0"]) (auto simp add: fun_eq_iff)
  also have "\<dots> = int (length (filter ?R ?ps))"
    unfolding fold_count_if by simp
  also have "length (filter ?R ?ps) = card (set (filter ?R ?ps))"
    by (rule distinct_card[symmetric]) (rule distinct_filter[OF d])
  also have "set (filter ?R ?ps) = neighbor_cells ?h ?w cell \<inter> mine_cells g"
    unfolding neighbor_cells_eq mine_cells_def by auto
  finally show ?thesis .
qed

lemma all_cells_eq: "all_cells h w = {(i, j). 0 \<le> i \<and> i < h \<and> 0 \<le> j \<and> j < w}"
proof -
  let ?ps = "List.product [0 .. h - 1] [0 .. w - 1]"
  have "all_cells h w = fold (\<lambda>p acc. if True then insert p acc else acc) ?ps {}"
    unfolding all_cells_def fold_nested by simp
  also have "\<dots> = {p \<in> set ?ps. True}"
    unfolding fold_insert_if by simp
  also have "\<dots> = {(i, j). 0 \<le> i \<and> i < h \<and> 0 \<le> j \<and> j < w}"
    by auto
  finally show ?thesis .
qed

lemma finite_all_cells [simp]: "finite (all_cells h w)"
proof -
  have "all_cells h w \<subseteq> {0 .. h - 1} \<times> {0 .. w - 1}"
    unfolding all_cells_eq by auto
  then show ?thesis by (rule finite_subset) simp
qed

subsection \<open>Choosing from a listed set\<close>

lemma pick_member:
  assumes "enumerates lst" "\<forall>n>0. randbelow n < n" "finite X" "X \<noteq> {}"
  shows "lst X ! randbelow (length (lst X)) \<in> X"
proof -
  from assms(1,3) have s: "set (lst X) = X" by (simp add: enumerates_def)
  with assms(4) have "0 < length (lst X)" by auto
  with assms(2) have "randbelow (length (lst X)) < length (lst X)" by blast
  then have "lst X ! randbelow (length (lst X)) \<in> set (lst X)" by (rule nth_mem)
  then show ?thesis unfolding s .
qed

subsection \<open>Sentences that hold for a board\<close>

lemma holds_mark_safe:
  assumes "holds_in M s" "c \<notin> M"
  shows "holds_in M (Sentence_mark_safe s c)"
proof -
  have "(cells s - {c}) \<inter> M = cells s \<inter> M" using assms(2) by auto
  moreover have "{c} \<inter> M = {}" using assms(2) by auto
  ultimately show ?thesis
    using assms(1) unfolding holds_in_def Sentence_mark_safe_def Let_def by auto
qed

lemma holds_mark_mine:
  assumes "holds_in M s" "c \<in> M"
  shows "holds_in M (Sentence_mark_mine s c)"
proof (cases "c \<in> cells s")
  case False
  then show ?thesis using assms(1) unfolding Sentence_mark_mine_def Let_def by auto
next
  case True
  have fin: "finite (cells s)" and cnt: "count s = int (card (cells s \<inter> M))"
    using assms(1) by (simp_all add: holds_in_def)
  show ?thesis
  proof (cases "cells s = {c}")
    case single: True
    have "{c} \<inter> M = {c}" using assms(2) by auto
    then show ?thesis unfolding holds_in_def Sentence_mark_mine_def Let_def using single by simp
  next
    case False
    with True have strict: "{c} \<subset> cells s" by auto
    have e: "(cells s - {c}) \<inter> M = (cells s \<inter> M) - {c}" by auto
    have m: "c \<in> cells s \<inter> M" using True assms(2) by simp
    have f: "finite (cells s \<inter> M)" using fin by simp
    from m f have "0 < card (cells s \<inter> M)" by (auto simp add: card_gt_0_iff)
    moreover have "card ((cells s \<inter> M) - {c}) = card (cells s \<inter> M) - 1"
      using m by (simp add: card_Diff_singleton)
    ultimately have "int (card ((cells s - {c}) \<inter> M)) = int (card (cells s \<inter> M)) - 1"
      unfolding e by linarith
    then show ?thesis
      unfolding holds_in_def Sentence_mark_mine_def Let_def using False strict fin cnt by simp
  qed
qed

lemma sound_mark_safe: "sound M a \<Longrightarrow> c \<notin> M \<Longrightarrow> sound M (mark_safe a c)"
  unfolding sound_def by (auto simp add: holds_mark_safe)

lemma sound_mark_mine: "sound M a \<Longrightarrow> c \<in> M \<Longrightarrow> sound M (mark_mine a c)"
  unfolding sound_def by (auto simp add: holds_mark_mine)

lemma sound_foldl_safe: "sound M a \<Longrightarrow> set xs \<inter> M = {} \<Longrightarrow> sound M (foldl mark_safe a xs)"
  by (rule foldl_preserves) (auto intro: sound_mark_safe)

lemma sound_foldl_mine: "sound M a \<Longrightarrow> set xs \<subseteq> M \<Longrightarrow> sound M (foldl mark_mine a xs)"
  by (rule foldl_preserves) (auto intro: sound_mark_mine)

lemma sound_append:
  assumes "sound M a" "\<And>s. s \<in> set ks \<Longrightarrow> holds_in M s"
  shows "sound M (a\<lparr>knowledge := knowledge a @ ks\<rparr>)"
  using assms unfolding sound_def by auto

lemma holds_single: "holds_in M (Sentence {c} (if c \<in> M then 1 else 0))"
  unfolding holds_in_def Sentence_def by simp


lemma sound_observe:
  assumes "sound M a" "cell \<notin> M" "cnt = int (card (neighbor_cells (height a) (width a) cell \<inter> M))"
  shows "sound M (observe a cell cnt)"
proof -
  let ?a0 = "a\<lparr>moves_made := insert cell (moves_made a), knowledge := knowledge a @ [Sentence {cell} 0]\<rparr>"
  have "holds_in M (Sentence {cell} 0)" using holds_single[of M cell] assms(2) by simp
  then have "sound M ?a0" using assms(1) unfolding sound_def by auto
  then have 1: "sound M (record_move a cell)"
    unfolding record_move_def using assms(2) by (rule sound_mark_safe)
  have "holds_in M (Sentence (neighbor_cells (height a) (width a) cell) cnt)"
    unfolding holds_in_def Sentence_def using assms(3) by simp
  then have "sound M ((record_move a cell)\<lparr>knowledge := knowledge (record_move a cell) @
       [Sentence (neighbor_cells (height a) (width a) cell) cnt]\<rparr>)"
    by (intro sound_append 1) simp
  then show ?thesis
    unfolding observe_def add_neighbor_sentence_def Let_def by (simp add: record_move_def)
qed

lemma card_inter_zero: "finite N \<Longrightarrow> int (card (N \<inter> M)) = 0 \<Longrightarrow> N \<inter> M = {}"
  by simp

lemma card_inter_full: "finite N \<Longrightarrow> int (card (N \<inter> M)) = int (card N) \<Longrightarrow> N \<subseteq> M"
proof -
  assume f: "finite N" and "int (card (N \<inter> M)) = int (card N)"
  then have "card (N \<inter> M) = card N" by simp
  with f have "N \<inter> M = N" by (intro card_subset_eq) auto
  then show "N \<subseteq> M" by auto
qed

lemma sound_direct_marks:
  assumes "sound M a" "enumerates (nbr_iter it)" "finite nbrs" "cnt = int (card (nbrs \<inter> M))"
  shows "sound M (direct_marks it a nbrs cnt)"
proof -
  let ?xs = "nbr_iter it nbrs"
  have xs: "set ?xs = nbrs" using assms(2,3) by (simp add: enumerates_def)
  show ?thesis
  proof (cases "cnt = 0")
    case True
    then have d: "nbrs \<inter> M = {}" using assms(3,4) by simp
    then have "sound M (foldl mark_safe a ?xs)"
      using assms(1) xs by (intro sound_foldl_safe) auto
    moreover have "holds_in M s" if "s \<in> set (map (\<lambda>c. Sentence {c} 0) ?xs)" for s
    proof -
      from that xs obtain c where c: "c \<in> nbrs" "s = Sentence {c} 0" by auto
      then have "c \<notin> M" using d by auto
      then show ?thesis using holds_single[of M c] c(2) by simp
    qed
    ultimately have "sound M ((foldl mark_safe a ?xs)\<lparr>knowledge := knowledge (foldl mark_safe a ?xs) @
         map (\<lambda>c. Sentence {c} 0) ?xs\<rparr>)"
      by (rule sound_append)
    then show ?thesis unfolding direct_marks_eq Let_def using True assms(1) by simp
  next
    case False
    show ?thesis
    proof (cases "cnt = int (card nbrs)")
      case full: True
      then have d: "nbrs \<subseteq> M" using assms(3,4) by (intro card_inter_full) simp_all
      then have "sound M (foldl mark_mine a ?xs)"
        using assms(1) xs by (intro sound_foldl_mine) auto
      moreover have "holds_in M s" if "s \<in> set (map (\<lambda>c. Sentence {c} 1) ?xs)" for s
      proof -
        from that xs obtain c where c: "c \<in> nbrs" "s = Sentence {c} 1" by auto
        then have "c \<in> M" using d by auto
        then show ?thesis using holds_single[of M c] c(2) by simp
      qed
      ultimately have "sound M ((foldl mark_mine a ?xs)\<lparr>knowledge := knowledge (foldl mark_mine a ?xs) @
           map (\<lambda>c. Sentence {c} 1) ?xs\<rparr>)"
        by (rule sound_append)
      then show ?thesis unfolding direct_marks_eq Let_def using False full assms(1) by simp
    next
      case False
      with \<open>cnt \<noteq> 0\<close> show ?thesis unfolding direct_marks_eq Let_def using assms(1) by simp
    qed
  qed
qed

lemma holds_difference:
  assumes "holds_in M A" "holds_in M B" "cells A \<subset> cells B"
  shows "holds_in M (Sentence (cells B - cells A) (count B - count A))"
proof -
  have fB: "finite (cells B \<inter> M)" using assms(2) by (simp add: holds_in_def)
  have sub: "cells A \<inter> M \<subseteq> cells B \<inter> M" using assms(3) by auto
  have "(cells B - cells A) \<inter> M = (cells B \<inter> M) - (cells A \<inter> M)" by auto
  moreover have "card ((cells B \<inter> M) - (cells A \<inter> M)) = card (cells B \<inter> M) - card (cells A \<inter> M)"
    using finite_subset[OF sub fB] sub by (rule card_Diff_subset)
  ultimately have "card ((cells B - cells A) \<inter> M) = card (cells B \<inter> M) - card (cells A \<inter> M)"
    by simp
  moreover have "card (cells A \<inter> M) \<le> card (cells B \<inter> M)"
    using fB sub by (rule card_mono)
  ultimately have "int (card ((cells B - cells A) \<inter> M)) = count B - count A"
    using assms(1,2) unfolding holds_in_def by linarith
  then show ?thesis using assms(2) unfolding holds_in_def Sentence_def by simp
qed

lemma sound_infer_pair:
  assumes "sound_pass M st" "i < length (knowledge (fst st))" "j < length (knowledge (fst st))"
    and "enumerates (new_iter it i j)"
  shows "sound_pass M (infer_pair it i j st)"
proof -
  let ?a = "fst st"
  let ?A = "knowledge ?a ! i" and ?B = "knowledge ?a ! j"
  let ?D = "cells ?B - cells ?A" and ?n = "count ?B - count ?A"
  let ?xs = "new_iter it i j ?D"
  have s: "sound M ?a" and nk: "\<forall>d \<in> set (snd st). holds_in M d"
    using assms(1) by (simp_all add: sound_pass_def)
  have hA: "holds_in M ?A" and hB: "holds_in M ?B"
    using s assms(2,3) by (simp_all add: sound_def)
  show ?thesis
  proof (cases "?A \<noteq> ?B \<and> cells ?A \<subset> cells ?B")
    case False
    then have "infer_pair it i j st = st" unfolding infer_pair_def Let_def by auto
    then show ?thesis using assms(1) by simp
  next
    case True
    have hD: "holds_in M (Sentence ?D ?n)" using hA hB True by (intro holds_difference) simp_all
    then have fD: "finite ?D" and cD: "?n = int (card (?D \<inter> M))"
      by (simp_all add: holds_in_def Sentence_def)
    have xs: "set ?xs = ?D" using assms(4) fD by (simp add: enumerates_def)
    let ?a1 = "if ?n = 0 then foldl mark_safe ?a ?xs else ?a"
    let ?a2 = "if ?n = int (card ?D) then foldl mark_mine ?a1 ?xs else ?a1"
    have "sound M ?a1"
    proof (cases "?n = 0")
      case True
      then have "?D \<inter> M = {}" using fD cD by simp
      then show ?thesis using True s xs by (simp add: sound_foldl_safe)
    next
      case False
      then show ?thesis using s by simp
    qed
    then have "sound M ?a2"
    proof (cases "?n = int (card ?D)")
      case True
      then have "?D \<subseteq> M" using fD cD by (intro card_inter_full) simp_all
      then show ?thesis using True \<open>sound M ?a1\<close> xs by (simp add: sound_foldl_mine)
    next
      case False
      then show ?thesis using \<open>sound M ?a1\<close> by simp
    qed
    moreover have "infer_pair it i j st = (?a2, snd st @ [Sentence ?D ?n])"
      using True unfolding infer_pair_def Let_def by auto
    ultimately show ?thesis using nk hD by (simp add: sound_pass_def)
  qed
qed

lemma sound_infer_pass:
  assumes "sound M a" "\<forall>i j. enumerates (new_iter it i j)"
  shows "sound_pass M (infer_pass it a)"
proof (rule infer_pass_induct)
  show "sound_pass M (a, [])" using assms(1) by (simp add: sound_pass_def)
next
  fix st :: "ai \<times> sentence list" and i j
  assume "sound_pass M st" "length (knowledge (fst st)) = length (knowledge a)"
    "i < length (knowledge a)" "j < length (knowledge a)"
  then show "sound_pass M (infer_pair it i j st)"
    using assms(2) by (intro sound_infer_pair) simp_all
qed

lemma sound_inferred:
  assumes "sound M a" "valid_iteration it" "cell \<notin> M"
    "cnt = int (card (neighbor_cells (height a) (width a) cell \<inter> M))"
  shows "sound M (inferred it a cell cnt)"
proof -
  let ?N = "neighbor_cells (height a) (width a) cell"
  have "sound M (observe a cell cnt)" using assms(1,3,4) by (rule sound_observe)
  then have "sound M (direct_marks it (observe a cell cnt) ?N cnt)"
    using assms(2,4) by (intro sound_direct_marks) (simp_all add: valid_iteration_def)
  then have "sound_pass M (infer_pass it (direct_marks it (observe a cell cnt) ?N cnt))"
    using assms(2) by (intro sound_infer_pass) (simp_all add: valid_iteration_def)
  then show ?thesis
    unfolding inferred_eq sound_pass_def sound_def by auto
qed

lemma sound_add_knowledge:
  assumes "sound M a" "valid_iteration it" "cell \<notin> M"
    "cnt = int (card (neighbor_cells (height a) (width a) cell \<inter> M))"
  shows "sound M (add_knowledge it a cell cnt)"
proof -
  have s: "sound M (inferred it a cell cnt)" using assms by (rule sound_inferred)
  have "enumerates (idx_iter it)" using assms(2) by (simp add: valid_iteration_def)
  then have "set (knowledge (add_knowledge it a cell cnt)) \<subseteq> set (knowledge (inferred it a cell cnt))"
    unfolding add_knowledge_def by (rule reduce_subset)
  then show ?thesis using s unfolding sound_def by auto
qed

lemma truthful_sound:
  assumes "truthful g (it, cell, cnt)"
  shows "valid_iteration it" "cell \<notin> mine_cells g"
    "cnt = int (card (neighbor_cells (board_height g) (board_width g) cell \<inter> mine_cells g))"
proof -
  show "valid_iteration it" using assms by (simp add: truthful_def)
  show "cell \<notin> mine_cells g" using assms by (auto simp add: truthful_def mine_cells_def)
  have "cnt = nearby_mines g cell" using assms by (simp add: truthful_def)
  then show "cnt = int (card (neighbor_cells (board_height g) (board_width g) cell \<inter> mine_cells g))"
    by (simp only: nearby_mines_eq)
qed

lemma run_snoc: "run a (calls @ [(it, cell, cnt)]) = add_knowledge it (run a calls) cell cnt"
  by (simp add: run_def)

lemma run_fields [simp]:
  "height (run a calls) = height a" "width (run a calls) = width a"
  by (induction calls rule: rev_induct) (auto simp add: run_snoc, simp_all add: run_def)

lemma sound_run:
  assumes "\<forall>call \<in> set calls. truthful g call"
  shows "sound (mine_cells g) (run (init_ai (board_height g) (board_width g)) calls)"
  using assms
proof (induction calls rule: rev_induct)
  case Nil
  show ?case by (simp add: run_def sound_def init_ai_def)
next
  case (snoc call calls)
  obtain it cell cnt where c: "call = (it, cell, cnt)" by (cases call)
  let ?a = "run (init_ai (board_height g) (board_width g)) calls"
  have s: "sound (mine_cells g) ?a" using snoc by simp
  have t: "truthful g (it, cell, cnt)" using snoc.prems c by simp
  have hw: "height ?a = board_height g" "width ?a = board_width g" by (simp_all add: init_ai_def)
  show ?case unfolding c run_snoc
  proof (rule sound_add_knowledge)
    show "sound (mine_cells g) ?a" by (rule s)
    show "valid_iteration it" "cell \<notin> mine_cells g" by (rule truthful_sound[OF t])+
    show "cnt = int (card (neighbor_cells (height ?a) (width ?a) cell \<inter> mine_cells g))"
      unfolding hw by (rule truthful_sound(3)[OF t])
  qed
qed

subsection \<open>Direct inference on derived sentences\<close>

lemma finite_mark_safe: "finite (cells s) \<Longrightarrow> finite (cells (Sentence_mark_safe s c))"
  by (simp add: Sentence_mark_safe_def Let_def)

lemma finite_mark_mine: "finite (cells s) \<Longrightarrow> finite (cells (Sentence_mark_mine s c))"
  by (simp add: Sentence_mark_mine_def Let_def)

lemma finite_pool_mark_safe: "finite_pool a \<Longrightarrow> finite_pool (mark_safe a c)"
  unfolding finite_pool_def by (auto simp add: finite_mark_safe)

lemma finite_pool_mark_mine: "finite_pool a \<Longrightarrow> finite_pool (mark_mine a c)"
  unfolding finite_pool_def by (auto simp add: finite_mark_mine)

lemma finite_pool_foldl_safe: "finite_pool a \<Longrightarrow> finite_pool (foldl mark_safe a xs)"
  by (rule foldl_preserves) (auto intro: finite_pool_mark_safe)

lemma finite_pool_foldl_mine: "finite_pool a \<Longrightarrow> finite_pool (foldl mark_mine a xs)"
  by (rule foldl_preserves) (auto intro: finite_pool_mark_mine)

lemma finite_pool_append:
  "finite_pool (a\<lparr>knowledge := knowledge b @ ks\<rparr>) \<longleftrightarrow> finite_pool b \<and> (\<forall>s \<in> set ks. finite (cells s))"
  unfolding finite_pool_def by auto

lemma finite_pool_observe: "finite_pool a \<Longrightarrow> finite_pool (observe a cell cnt)"
proof -
  assume "finite_pool a"
  then have "finite_pool (a\<lparr>moves_made := insert cell (moves_made a), knowledge := knowledge a @ [Sentence {cell} 0]\<rparr>)"
    unfolding finite_pool_def by (auto simp add: Sentence_def)
  then have "finite_pool (record_move a cell)"
    unfolding record_move_def by (rule finite_pool_mark_safe)
  then show ?thesis
    unfolding observe_def add_neighbor_sentence_def Let_def
    by (simp add: finite_pool_append Sentence_def)
qed

lemma finite_pool_direct_marks: "finite_pool a \<Longrightarrow> finite_pool (direct_marks it a nbrs cnt)"
  unfolding direct_marks_eq Let_def
  by (simp add: finite_pool_append finite_pool_foldl_safe finite_pool_foldl_mine Sentence_def)

lemma direct_marks_marked:
  assumes "enumerates (nbr_iter it)" "finite nbrs"
  shows "cnt = 0 \<Longrightarrow> nbrs \<subseteq> safes (direct_marks it a nbrs cnt)"
    and "cnt \<noteq> 0 \<Longrightarrow> cnt = int (card nbrs) \<Longrightarrow> nbrs \<subseteq> mines (direct_marks it a nbrs cnt)"
proof -
  have xs: "set (nbr_iter it nbrs) = nbrs" using assms by (simp add: enumerates_def)
  then have e: "nbr_iter it nbrs = [] \<Longrightarrow> nbrs = {}" by auto
  show "cnt = 0 \<Longrightarrow> nbrs \<subseteq> safes (direct_marks it a nbrs cnt)"
    unfolding direct_marks_eq Let_def using xs e by auto
  show "cnt \<noteq> 0 \<Longrightarrow> cnt = int (card nbrs) \<Longrightarrow> nbrs \<subseteq> mines (direct_marks it a nbrs cnt)"
    unfolding direct_marks_eq Let_def using xs e by auto
qed

lemma marked_mono:
  "marked a d \<Longrightarrow> safes a \<subseteq> safes b \<Longrightarrow> mines a \<subseteq> mines b \<Longrightarrow> marked b d"
  unfolding marked_def by blast

lemma marked_infer_pair:
  assumes "marked_pass st" "i < length (knowledge (fst st))" "j < length (knowledge (fst st))"
    and "enumerates (new_iter it i j)"
  shows "marked_pass (infer_pair it i j st)"
proof -
  let ?a = "fst st"
  let ?A = "knowledge ?a ! i" and ?B = "knowledge ?a ! j"
  let ?D = "cells ?B - cells ?A" and ?n = "count ?B - count ?A"
  let ?xs = "new_iter it i j ?D"
  have fp: "finite_pool ?a" and nk: "\<forall>d \<in> set (snd st). marked ?a d"
    using assms(1) by (simp_all add: marked_pass_def)
  have "finite (cells ?B)" using fp assms(3) by (simp add: finite_pool_def)
  then have fD: "finite ?D" by simp
  have xs: "set ?xs = ?D" using assms(4) fD by (simp add: enumerates_def)
  show ?thesis
  proof (cases "?A \<noteq> ?B \<and> cells ?A \<subset> cells ?B")
    case False
    then have "infer_pair it i j st = st" unfolding infer_pair_def Let_def by auto
    then show ?thesis using assms(1) by simp
  next
    case True
    let ?a1 = "if ?n = 0 then foldl mark_safe ?a ?xs else ?a"
    let ?a2 = "if ?n = int (card ?D) then foldl mark_mine ?a1 ?xs else ?a1"
    have eq: "infer_pair it i j st = (?a2, snd st @ [Sentence ?D ?n])"
      using True unfolding infer_pair_def Let_def by auto
    have fp2: "finite_pool ?a2" using fp by (simp add: finite_pool_foldl_safe finite_pool_foldl_mine)
    have new: "marked ?a2 (Sentence ?D ?n)"
      unfolding marked_def Sentence_def using xs by auto
    have "safes ?a \<subseteq> safes ?a2" "mines ?a \<subseteq> mines ?a2" by auto
    then have old: "\<forall>d \<in> set (snd st). marked ?a2 d"
      using nk marked_mono by blast
    show ?thesis unfolding eq marked_pass_def using fp2 new old by simp
  qed
qed

lemma marked_infer_pass:
  assumes "finite_pool a" "\<forall>i j. enumerates (new_iter it i j)"
  shows "marked_pass (infer_pass it a)"
proof (rule infer_pass_induct)
  show "marked_pass (a, [])" using assms(1) by (simp add: marked_pass_def)
next
  fix st :: "ai \<times> sentence list" and i j
  assume "marked_pass st" "length (knowledge (fst st)) = length (knowledge a)"
    "i < length (knowledge a)" "j < length (knowledge a)"
  then show "marked_pass (infer_pair it i j st)"
    using assms(2) by (intro marked_infer_pair) simp_all
qed

subsection \<open>The set of safe cells stays finite\<close>

lemma finite_safes_infer_pair:
  "finite (safes (fst st)) \<Longrightarrow> finite (safes (fst (infer_pair it i j st)))"
  by (simp add: infer_pair_def Let_def)

lemma finite_safes_add_knowledge:
  assumes "finite (safes a)"
  shows "finite (safes (add_knowledge it a cell cnt))"
proof -
  let ?a3 = "direct_marks it (observe a cell cnt) (neighbor_cells (height a) (width a) cell) cnt"
  have "finite (safes ?a3)" using assms by (simp add: direct_marks_eq Let_def)
  then have "finite (safes (fst (infer_pass it ?a3)))"
    by (intro infer_pass_induct[where P = "\<lambda>st. finite (safes (fst st))"])
       (simp_all add: finite_safes_infer_pair)
  then show ?thesis by (simp add: inferred_eq)
qed

lemma finite_safes_run: "finite (safes (run (init_ai h w) calls))"
proof (induction calls rule: rev_induct)
  case Nil
  show ?case by (simp add: run_def init_ai_def)
next
  case (snoc call calls)
  obtain it cell cnt where c: "call = (it, cell, cnt)" by (cases call)
  show ?case unfolding c run_snoc using snoc by (rule finite_safes_add_knowledge)
qed

subsection \<open>Sentences with an empty cell set; the first position of a cell set\<close>

lemma nonempty_mark_safe: "cells s \<noteq> {} \<Longrightarrow> cells (Sentence_mark_safe s c) \<noteq> {}"
  unfolding Sentence_mark_safe_def Let_def by auto

lemma nonempty_mark_mine: "cells s \<noteq> {} \<Longrightarrow> cells (Sentence_mark_mine s c) \<noteq> {}"
  unfolding Sentence_mark_mine_def Let_def by auto

lemma no_empty_mark_safe: "no_empty a \<Longrightarrow> no_empty (mark_safe a c)"
  unfolding no_empty_def by (auto simp add: nonempty_mark_safe)

lemma no_empty_mark_mine: "no_empty a \<Longrightarrow> no_empty (mark_mine a c)"
  unfolding no_empty_def by (auto simp add: nonempty_mark_mine)

lemma no_empty_foldl_safe: "no_empty a \<Longrightarrow> no_empty (foldl mark_safe a xs)"
  by (rule foldl_preserves) (auto intro: no_empty_mark_safe)

lemma no_empty_foldl_mine: "no_empty a \<Longrightarrow> no_empty (foldl mark_mine a xs)"
  by (rule foldl_preserves) (auto intro: no_empty_mark_mine)

lemma no_empty_append:
  "no_empty (a\<lparr>knowledge := knowledge b @ ks\<rparr>) \<longleftrightarrow> no_empty b \<and> (\<forall>s \<in> set ks. cells s \<noteq> {})"
  unfolding no_empty_def by auto

lemma no_empty_observe:
  assumes "no_empty a" "neighbor_cells (height a) (width a) cell \<noteq> {}"
  shows "no_empty (observe a cell cnt)"
proof -
  have "no_empty (a\<lparr>moves_made := insert cell (moves_made a), knowledge := knowledge a @ [Sentence {cell} 0]\<rparr>)"
    using assms(1) unfolding no_empty_def by (auto simp add: Sentence_def)
  then have r: "no_empty (record_move a cell)"
    unfolding record_move_def by (rule no_empty_mark_safe)
  have hw: "height (record_move a cell) = height a" "width (record_move a cell) = width a"
    by (simp_all add: record_move_def)
  have "no_empty ((record_move a cell)\<lparr>knowledge := knowledge (record_move a cell) @
          [Sentence (neighbor_cells (height a) (width a) cell) cnt]\<rparr>)"
    unfolding no_empty_append using r assms(2) by (simp add: Sentence_def)
  then show ?thesis
    unfolding observe_def add_neighbor_sentence_def Let_def hw .
qed

lemma no_empty_direct_marks: "no_empty a \<Longrightarrow> no_empty (direct_marks it a nbrs cnt)"
  unfolding direct_marks_eq Let_def
  by (simp add: no_empty_append no_empty_foldl_safe no_empty_foldl_mine Sentence_def)

lemma no_empty_infer_pair:
  assumes "no_empty_pass st"
  shows "no_empty_pass (infer_pair it i j st)"
proof -
  let ?a = "fst st"
  let ?A = "knowledge ?a ! i" and ?B = "knowledge ?a ! j"
  show ?thesis
  proof (cases "?A \<noteq> ?B \<and> cells ?A \<subset> cells ?B")
    case False
    then have "infer_pair it i j st = st" unfolding infer_pair_def Let_def by auto
    then show ?thesis using assms by simp
  next
    case True
    then have "cells ?B - cells ?A \<noteq> {}" by auto
    then show ?thesis
      using assms True unfolding infer_pair_def Let_def no_empty_pass_def
      by (simp add: no_empty_foldl_safe no_empty_foldl_mine Sentence_def)
  qed
qed

lemma no_empty_infer_pass:
  assumes "no_empty a"
  shows "no_empty_pass (infer_pass it a)"
  by (rule infer_pass_induct) (simp_all add: assms no_empty_pass_def no_empty_infer_pair[unfolded no_empty_pass_def])

lemma no_empty_add_knowledge:
  assumes "no_empty a" "neighbor_cells (height a) (width a) cell \<noteq> {}" "enumerates (idx_iter it)"
  shows "no_empty (add_knowledge it a cell cnt)"
proof -
  let ?a3 = "direct_marks it (observe a cell cnt) (neighbor_cells (height a) (width a) cell) cnt"
  have "no_empty ?a3" using assms(1,2) by (intro no_empty_direct_marks no_empty_observe)
  then have "no_empty_pass (infer_pass it ?a3)" by (rule no_empty_infer_pass)
  then have "no_empty (inferred it a cell cnt)"
    unfolding inferred_eq no_empty_pass_def no_empty_def by auto
  moreover have "set (knowledge (add_knowledge it a cell cnt)) \<subseteq> set (knowledge (inferred it a cell cnt))"
    unfolding add_knowledge_def using assms(3) by (rule reduce_subset)
  ultimately show ?thesis unfolding no_empty_def by blast
qed

lemma neighbor_cells_nonempty:
  assumes "0 \<le> fst cell" "fst cell < h" "0 \<le> snd cell" "snd cell < w" "2 \<le> h \<or> 2 \<le> w"
  shows "neighbor_cells h w cell \<noteq> {}"
proof -
  obtain i j where c: "cell = (i, j)" by (cases cell)
  from assms(5) show ?thesis
  proof
    assume "2 \<le> h"
    then have "(if i = 0 then 1 else i - 1, j) \<in> neighbor_cells h w cell"
      using assms(1-4) unfolding neighbor_cells_eq c by auto
    then show ?thesis by blast
  next
    assume "2 \<le> w"
    then have "(i, if j = 0 then 1 else j - 1) \<in> neighbor_cells h w cell"
      using assms(1-4) unfolding neighbor_cells_eq c by auto
    then show ?thesis by blast
  qed
qed

lemma no_empty_run:
  assumes "2 \<le> h \<or> 2 \<le> w" "\<forall>call \<in> set calls. on_board h w call"
  shows "no_empty (run (init_ai h w) calls)"
  using assms(2)
proof (induction calls rule: rev_induct)
  case Nil
  show ?case by (simp add: run_def no_empty_def init_ai_def)
next
  case (snoc call calls)
  obtain it cell cnt where c: "call = (it, cell, cnt)" by (cases call)
  let ?a = "run (init_ai h w) calls"
  have ob: "on_board h w (it, cell, cnt)" using snoc.prems c by simp
  have hw: "height ?a = h" "width ?a = w" by (simp_all add: init_ai_def)
  have "neighbor_cells (height ?a) (width ?a) cell \<noteq> {}"
    unfolding hw using ob assms(1) by (intro neighbor_cells_nonempty) (simp_all add: on_board_def)
  moreover have "no_empty ?a" using snoc by simp
  moreover have "enumerates (idx_iter it)" using ob by (simp add: on_board_def)
  ultimately show ?case unfolding c run_snoc by (intro no_empty_add_knowledge)
qed

lemma index_of_first:
  assumes "s \<in> set K" "q < index_of K s ! 0"
  shows "cells (K ! q) \<noteq> cells s"
proof
  assume eq: "cells (K ! q) = cells s"
  let ?xs = "index_of K s"
  have ne: "?xs \<noteq> []" and lt: "?xs ! 0 < length K" using assms(1) by (rule index_of_member)+
  have "q < length K" using assms(2) lt by simp
  then have "q \<in> set ?xs" using eq by (simp add: index_of_def)
  then obtain k where k: "k < length ?xs" "?xs ! k = q" by (auto simp add: in_set_conv_nth)
  have "sorted ?xs" unfolding index_of_def by (rule sorted_wrt_filter) simp
  then have "?xs ! 0 \<le> ?xs ! k" using k(1) by (intro sorted_nth_mono) simp_all
  then show False using k(2) assms(2) by simp
qed

lemma reduce_first:
  assumes "enumerates (idx_iter it)" "s \<in> set (knowledge (reduce_knowledge it a))"
  shows "\<exists>p < length (knowledge a). s = knowledge a ! p \<and> (\<forall>q < p. cells (knowledge a ! q) \<noteq> cells s)"
proof -
  let ?K = "knowledge a"
  from assms(2) obtain index where i: "index \<in> set (idx_iter it (index_of ?K ` set ?K))"
    and s: "s = ?K ! (index ! 0)"
    unfolding knowledge_reduce by auto
  from i have "index \<in> index_of ?K ` set ?K" unfolding idx_iter_set(1)[OF assms(1)] .
  then obtain t where t: "t \<in> set ?K" "index = index_of ?K t" by blast
  have c: "cells s = cells t" unfolding s t(2) using t(1) by (rule index_of_member(3))
  have "index ! 0 < length ?K" unfolding t(2) using t(1) by (rule index_of_member(2))
  moreover have "\<forall>q < index ! 0. cells (?K ! q) \<noteq> cells s"
    unfolding c t(2) using index_of_first[OF t(1)] by blast
  ultimately show ?thesis using s by blast
qed

subsection \<open>The sentences a pass derives\<close>

lemma infer_row_append:
  "infer_row it i (xs @ ys) st = infer_row it i ys (infer_row it i xs st)"
  by (induction xs arbitrary: st) auto

lemma infer_rows_append:
  "infer_rows it (xs @ ys) js st = infer_rows it ys js (infer_rows it xs js st)"
  by (induction xs arbitrary: st) auto

lemma infer_pair_derives:
  "set (snd (infer_pair it i j st)) = set (snd st) \<union> {d. derives (fst st) i j d}"
proof (cases "cells (knowledge (fst st) ! i) \<subset> cells (knowledge (fst st) ! j)")
  case True
  then have "knowledge (fst st) ! i \<noteq> knowledge (fst st) ! j" by auto
  then show ?thesis using True unfolding infer_pair_def Let_def derives_def by auto
next
  case False
  then show ?thesis unfolding infer_pair_def Let_def derives_def by auto
qed

lemma infer_row_derives:
  "set (snd (infer_row it i [0..<m] st)) =
     set (snd st) \<union> {d. \<exists>j<m. derives (fst (infer_row it i [0..<j] st)) i j d}"
proof (induction m)
  case 0
  show ?case by simp
next
  case (Suc m)
  have "infer_row it i [0..<Suc m] st = infer_pair it i m (infer_row it i [0..<m] st)"
    by (simp add: infer_row_append)
  then have "set (snd (infer_row it i [0..<Suc m] st)) =
      set (snd (infer_row it i [0..<m] st)) \<union> {d. derives (fst (infer_row it i [0..<m] st)) i m d}"
    by (simp only: infer_pair_derives)
  also have "\<dots> = set (snd st) \<union> {d. \<exists>j<m. derives (fst (infer_row it i [0..<j] st)) i j d}
      \<union> {d. derives (fst (infer_row it i [0..<m] st)) i m d}"
    by (simp only: Suc.IH)
  also have "\<dots> = set (snd st) \<union> {d. \<exists>j<Suc m. derives (fst (infer_row it i [0..<j] st)) i j d}"
    by (auto simp add: less_Suc_eq)
  finally show ?case .
qed

lemma infer_rows_derives:
  "set (snd (infer_rows it [0..<k] [0..<n] st)) =
     set (snd st) \<union>
     {d. \<exists>i<k. \<exists>j<n. derives (fst (infer_row it i [0..<j] (infer_rows it [0..<i] [0..<n] st))) i j d}"
proof (induction k)
  case 0
  show ?case by simp
next
  case (Suc k)
  let ?D = "\<lambda>i. {d. \<exists>j<n. derives (fst (infer_row it i [0..<j] (infer_rows it [0..<i] [0..<n] st))) i j d}"
  have "infer_rows it [0..<Suc k] [0..<n] st = infer_row it k [0..<n] (infer_rows it [0..<k] [0..<n] st)"
    by (simp add: infer_rows_append)
  then have "set (snd (infer_rows it [0..<Suc k] [0..<n] st)) =
      set (snd (infer_rows it [0..<k] [0..<n] st)) \<union> ?D k"
    by (simp only: infer_row_derives)
  also have "\<dots> = set (snd st) \<union> {d. \<exists>i<k. d \<in> ?D i} \<union> ?D k"
    using Suc.IH by simp
  also have "\<dots> = set (snd st) \<union> {d. \<exists>i<Suc k. d \<in> ?D i}"
    by (auto simp add: less_Suc_eq)
  finally show ?case by simp
qed

lemma infer_pass_derives:
  "set (snd (infer_pass it a)) =
     {d. \<exists>i<length (knowledge a). \<exists>j<length (knowledge a). derives (fst (visited it a i j)) i j d}"
  unfolding infer_pass_def Let_def visited_def infer_rows_derives by simp

section \<open>The claims\<close>

subsection \<open>Sentences\<close>

text \<open>
  Claim C4.  The claim: \<open>known_mines()\<close> returns the cells when \<open>count = |cells|\<close> and the
  empty set otherwise, \<open>known_safes()\<close> the cells when \<open>count = 0\<close> and the empty set
  otherwise.  The code returns \<open>self.cells\<close> whatever the count is: for the sentence
  \<open>{(0,0), (0,1)} = 1\<close>, where neither test holds, both calls return both cells.
\<close>

theorem Sentence_known_undetermined:
  "count (Sentence {(0,0), (0,1)} 1) \<noteq> int (card (cells (Sentence {(0,0), (0,1)} 1))) \<and>
   Sentence_known_mines (Sentence {(0,0), (0,1)} 1) = {(0,0), (0,1)} \<and>
   count (Sentence {(0,0), (0,1)} 1) \<noteq> 0 \<and>
   Sentence_known_safes (Sentence {(0,0), (0,1)} 1) = {(0,0), (0,1)}"
  by (simp add: Sentence_def Sentence_known_mines_def Sentence_known_safes_def)

text \<open>
  Claim C5, as amended.  \<open>Sentence.mark_mine(cell)\<close> leaves the sentence unchanged when
  the cell is absent; when the cell set is exactly \<open>{cell}\<close> it keeps the cell set and sets
  the count to 1; when the cell is a member next to others it removes the cell and
  decrements the count by 1.
\<close>

theorem Sentence_mark_mine_cases:
  "Sentence_mark_mine s c =
     (if c \<notin> cells s then s
      else if cells s = {c} then s\<lparr>count := 1\<rparr>
      else s\<lparr>cells := cells s - {c}, count := count s - 1\<rparr>)"
  by (auto simp add: Sentence_mark_mine_def Let_def)

theorem Sentence_mark_mine_cases_witness:
  "Sentence_mark_mine (Sentence {(0,0), (0,1)} 1) (1,1) = Sentence {(0,0), (0,1)} 1 \<and>
   Sentence_mark_mine (Sentence {(0,0)} 0) (0,0) = Sentence {(0,0)} 1 \<and>
   Sentence_mark_mine (Sentence {(0,0), (0,1)} 1) (0,0) = Sentence {(0,1)} 0"
proof -
  have "{(0,0), (0,1)} - {(0,0)} = {(0::int, 1::int)}" by auto
  then show ?thesis
    using Sentence_mark_mine_cases [of "Sentence {(0,0), (0,1)} 1" "(1,1)"]
      Sentence_mark_mine_cases [of "Sentence {(0,0)} 0" "(0,0)"]
      Sentence_mark_mine_cases [of "Sentence {(0,0), (0,1)} 1" "(0,0)"]
    by (simp add: Sentence_def)
qed

text \<open>
  The claim as it stands, that a member cell is always removed and the count always
  decremented, fails for the sentence \<open>{(0,0)} = 1\<close> and its only cell: the sentence is
  left as it is.
\<close>

theorem Sentence_mark_mine_singleton_counterexample:
  "(0,0) \<in> cells (Sentence {(0,0)} 1) \<and>
   cells (Sentence_mark_mine (Sentence {(0,0)} 1) (0,0)) \<noteq> cells (Sentence {(0,0)} 1) - {(0,0)} \<and>
   count (Sentence_mark_mine (Sentence {(0,0)} 1) (0,0)) \<noteq> count (Sentence {(0,0)} 1) - 1"
  by (simp add: Sentence_mark_mine_def Sentence_def)

subsection \<open>Monotone sets\<close>

text \<open>
  Claim C9.  Across a call of \<open>add_knowledge\<close>, from any state, with any cell, count and
  iteration order, each of \<open>moves_made\<close>, \<open>mines\<close> and \<open>safes\<close> before the call is a subset
  of the same set after the call.
\<close>

theorem add_knowledge_monotone:
  "moves_made a \<subseteq> moves_made (add_knowledge it a cell cnt) \<and>
   mines a \<subseteq> mines (add_knowledge it a cell cnt) \<and>
   safes a \<subseteq> safes (add_knowledge it a cell cnt)"
  using inferred_grows [of a it cell cnt] by auto

subsection \<open>The pool after a call\<close>

text \<open>
  Claim C10.  After every call \<open>add_knowledge(cell, count)\<close> the pool holds a sentence whose
  cell set is exactly \<open>{cell}\<close>: the sentence \<open>{cell} = 0\<close> appended at line 204 keeps its
  cell set through every mark, and the reduction keeps one sentence for every cell set.
  The order in which \<open>index_set\<close> is visited must visit every tuple.
\<close>

theorem add_knowledge_keeps_move_sentence:
  assumes "enumerates (idx_iter it)"
  shows "has_cells {cell} (add_knowledge it a cell cnt)"
  unfolding add_knowledge_def has_cells_reduce[OF assms] by (rule single_inferred)

theorem add_knowledge_keeps_move_sentence_witness:
  "enumerates (idx_iter sorted_iteration) \<and>
   has_cells {(0,0)} (add_knowledge sorted_iteration (init_ai 1 1) (0,0) 0)"
proof -
  have e: "enumerates (idx_iter sorted_iteration)" by (simp add: sorted_iteration_def)
  from add_knowledge_keeps_move_sentence[OF e] e show ?thesis by simp
qed

text \<open>
  Claim C7, as amended.  When \<open>add_knowledge\<close> returns, no two positions of the pool hold
  the same cell set; the cell sets of the pool are exactly the cell sets held before the
  reduction; and every sentence of the pool is the sentence that stood, before the
  reduction, at the first position holding its cell set, count included.  A call for a
  cell with a neighbour inside the board adds no sentence with an empty cell set to a
  pool that has none, so after any history of calls for cells on a board with at least
  two rows or at least two columns the pool has no sentence with an empty cell set.  (On
  the board of a single cell the sentence over the neighbours is empty and is kept.)
\<close>

theorem add_knowledge_reduction:
  assumes "enumerates (idx_iter it)"
  shows "distinct (map cells (knowledge (add_knowledge it a cell cnt))) \<and>
         cells ` set (knowledge (add_knowledge it a cell cnt)) =
           cells ` set (knowledge (inferred it a cell cnt)) \<and>
         (\<forall>s \<in> set (knowledge (add_knowledge it a cell cnt)).
            \<exists>p < length (knowledge (inferred it a cell cnt)).
              s = knowledge (inferred it a cell cnt) ! p \<and>
              (\<forall>q < p. cells (knowledge (inferred it a cell cnt) ! q) \<noteq> cells s)) \<and>
         (no_empty a \<and> neighbor_cells (height a) (width a) cell \<noteq> {} \<longrightarrow>
            no_empty (add_knowledge it a cell cnt)) \<and>
         ((2 \<le> h \<or> 2 \<le> w) \<and> (\<forall>call \<in> set calls. on_board h w call) \<longrightarrow>
            no_empty (run (init_ai h w) calls))"
proof -
  have 1: "distinct (map cells (knowledge (add_knowledge it a cell cnt)))"
    unfolding add_knowledge_def by (rule reduce_distinct[OF assms])
  have 2: "cells ` set (knowledge (add_knowledge it a cell cnt)) =
           cells ` set (knowledge (inferred it a cell cnt))"
    unfolding add_knowledge_def by (rule reduce_cells[OF assms])
  have 3: "\<forall>s \<in> set (knowledge (add_knowledge it a cell cnt)).
            \<exists>p < length (knowledge (inferred it a cell cnt)).
              s = knowledge (inferred it a cell cnt) ! p \<and>
              (\<forall>q < p. cells (knowledge (inferred it a cell cnt) ! q) \<noteq> cells s)"
    unfolding add_knowledge_def using reduce_first[OF assms] by blast
  have 4: "no_empty a \<and> neighbor_cells (height a) (width a) cell \<noteq> {} \<longrightarrow>
            no_empty (add_knowledge it a cell cnt)"
    using no_empty_add_knowledge[OF _ _ assms] by blast
  have 5: "(2 \<le> h \<or> 2 \<le> w) \<and> (\<forall>call \<in> set calls. on_board h w call) \<longrightarrow>
            no_empty (run (init_ai h w) calls)"
    using no_empty_run by blast
  from 1 2 3 4 5 show ?thesis by blast
qed

theorem add_knowledge_reduction_witness:
  "distinct (map cells (knowledge (add_knowledge sorted_iteration (init_ai 1 1) (0,0) 0))) \<and>
   knowledge (add_knowledge sorted_iteration (init_ai 1 1) (0,0) 0) \<noteq> [] \<and>
   on_board 1 2 (sorted_iteration, (0,0), 0) \<and> on_board 1 2 (sorted_iteration, (0,1), 0) \<and>
   no_empty (run (init_ai 1 2) [(sorted_iteration, (0,0), 0), (sorted_iteration, (0,1), 0)]) \<and>
   knowledge (run (init_ai 1 2) [(sorted_iteration, (0,0), 0), (sorted_iteration, (0,1), 0)]) \<noteq> []"
proof -
  have e: "enumerates (idx_iter sorted_iteration)" by (simp add: sorted_iteration_def)
  have ob: "on_board 1 2 (sorted_iteration, (0,0), 0)" "on_board 1 2 (sorted_iteration, (0,1), 0)"
    by (simp_all add: on_board_def e)
  then have all: "\<forall>call \<in> set [(sorted_iteration, (0,0), 0), (sorted_iteration, (0,1), 0)]. on_board 1 2 call"
    by simp
  have ne: "knowledge (add_knowledge sorted_iteration (init_ai 1 1) (0,0) 0) \<noteq> []"
    "knowledge (run (init_ai 1 2) [(sorted_iteration, (0,0), 0), (sorted_iteration, (0,1), 0)]) \<noteq> []"
    by code_simp+
  from add_knowledge_reduction[OF e, of "init_ai 1 1" "(0,0)" 0 1 2
      "[(sorted_iteration, (0,0), 0), (sorted_iteration, (0,1), 0)]"] all ob ne
  show ?thesis by simp
qed

text \<open>
  The claim of C7 as it stands, that no sentence with an empty cell set is left, fails
  on the board of a single cell: the sentence over the neighbours has no cell and stays
  in the pool.
\<close>

theorem add_knowledge_keeps_empty_counterexample:
  "Sentence {} 0 \<in> set (knowledge (add_knowledge sorted_iteration (init_ai 1 1) (0,0) 0))"
  by code_simp

subsection \<open>The sentence of an observation\<close>

text \<open>
  Claim C6, as amended.  After line 217 the pool is the old pool with \<open>cell\<close> marked safe
  in every sentence, then the sentence \<open>{cell} = 0\<close>, then the sentence whose cell set is
  the whole neighbourhood of \<open>cell\<close> inside the board and whose count is the given one.
  No cell is left out for being in \<open>moves_made\<close>, \<open>mines\<close> or \<open>safes\<close>, and the sentence is
  appended also when it has no cell.
\<close>

theorem observe_appends_neighbors:
  "knowledge (observe a cell cnt) =
     map (\<lambda>s. Sentence_mark_safe s cell) (knowledge a) @
     [Sentence {cell} 0,
      Sentence {(i, j). fst cell - 1 \<le> i \<and> i \<le> fst cell + 1 \<and> snd cell - 1 \<le> j \<and> j \<le> snd cell + 1 \<and>
                        (i, j) \<noteq> cell \<and> 0 \<le> i \<and> i < height a \<and> 0 \<le> j \<and> j < width a} cnt]"
proof -
  have "Sentence_mark_safe (Sentence {cell} 0) cell = Sentence {cell} 0"
    by (simp add: Sentence_mark_safe_def Sentence_def)
  then show ?thesis
    unfolding observe_def record_move_def add_neighbor_sentence_def Let_def neighbor_cells_eq
    by simp
qed

text \<open>
  The claim as it stands fails in both of its parts.  On the board of one row and two
  columns without mines, after the call for \<open>(0,0)\<close> with count 0, the sentence appended
  for \<open>(0,1)\<close> holds the cell \<open>(0,0)\<close>, which is in \<open>moves_made\<close> and in \<open>safes\<close>; and on the
  board of a single cell the sentence appended has no cell.
\<close>

theorem observe_unfiltered_counterexample:
  "(0,0) \<in> moves_made (add_knowledge sorted_iteration (init_ai 1 2) (0,0) 0) \<and>
   (0,0) \<in> safes (add_knowledge sorted_iteration (init_ai 1 2) (0,0) 0) \<and>
   last (knowledge (observe (add_knowledge sorted_iteration (init_ai 1 2) (0,0) 0) (0,1) 0)) = Sentence {(0,0)} 0 \<and>
   last (knowledge (observe (init_ai 1 1) (0,0) 0)) = Sentence {} 0"
  by code_simp

subsection \<open>The moves\<close>

text \<open>
  Claim C8.  For a state with a finite set \<open>safes\<close>, \<open>make_safe_move\<close> returns a cell of
  \<open>safes - moves_made\<close>, and \<open>None\<close> exactly when that set is empty; \<open>make_random_move\<close>
  returns a cell of the board that is neither in \<open>mines\<close> nor in \<open>moves_made\<close>, and \<open>None\<close>
  exactly when there is no such cell; both leave the state as it is.  The listing of a
  set lists its elements, and the random position is below the length of the list.
  Every state reached by calls from the initial state has a finite set \<open>safes\<close>
  (\<open>finite_safes_run\<close>).
\<close>

theorem moves_choose_candidates:
  assumes "enumerates lst" and "\<forall>n>0. randbelow n < n" and "finite (safes a)"
  shows "(case fst (make_safe_move lst randbelow a) of
            None \<Rightarrow> safes a - moves_made a = {}
          | Some c \<Rightarrow> c \<in> safes a - moves_made a) \<and>
         snd (make_safe_move lst randbelow a) = a \<and>
         (case fst (make_random_move lst randbelow a) of
            None \<Rightarrow> {(i, j). 0 \<le> i \<and> i < height a \<and> 0 \<le> j \<and> j < width a} - mines a - moves_made a = {}
          | Some c \<Rightarrow> c \<in> {(i, j). 0 \<le> i \<and> i < height a \<and> 0 \<le> j \<and> j < width a} - mines a - moves_made a) \<and>
         snd (make_random_move lst randbelow a) = a"
proof -
  let ?S = "safes a - moves_made a"
  let ?R = "all_cells (height a) (width a) - mines a - moves_made a"
  have fS: "finite ?S" using assms(3) by simp
  have fR: "finite ?R" by simp
  have 1: "case fst (make_safe_move lst randbelow a) of None \<Rightarrow> ?S = {} | Some c \<Rightarrow> c \<in> ?S"
  proof (cases "?S = {}")
    case True
    have "make_safe_move lst randbelow a = (None, a)"
      unfolding make_safe_move_def Let_def True by simp
    then show ?thesis using True by simp
  next
    case False
    then have "0 < card ?S" using fS by (simp add: card_gt_0_iff)
    moreover have "lst ?S ! randbelow (length (lst ?S)) \<in> ?S"
      using assms(1,2) fS False by (rule pick_member)
    ultimately show ?thesis by (simp add: make_safe_move_def Let_def)
  qed
  have 2: "case fst (make_random_move lst randbelow a) of None \<Rightarrow> ?R = {} | Some c \<Rightarrow> c \<in> ?R"
  proof (cases "?R = {}")
    case True
    have "make_random_move lst randbelow a = (None, a)"
      unfolding make_random_move_def Let_def True by simp
    then show ?thesis using True by simp
  next
    case False
    then have "0 < card ?R" using fR by (simp add: card_gt_0_iff)
    moreover have "lst ?R ! randbelow (length (lst ?R)) \<in> ?R"
      using assms(1,2) fR False by (rule pick_member)
    ultimately show ?thesis by (simp add: make_random_move_def Let_def)
  qed
  have 3: "snd (make_safe_move lst randbelow a) = a" "snd (make_random_move lst randbelow a) = a"
    by (simp_all add: make_safe_move_def make_random_move_def Let_def)
  from 1 2 3 show ?thesis unfolding all_cells_eq by simp
qed

theorem moves_choose_candidates_witness:
  "fst (make_safe_move sorted_list_of_set (\<lambda>n. 0)
          \<lparr>height = 1, width = 2, moves_made = {(0,0)}, mines = {}, safes = {(0,0), (0,1)}, knowledge = []\<rparr>)
     \<noteq> None \<and>
   fst (make_random_move sorted_list_of_set (\<lambda>n. 0)
          \<lparr>height = 1, width = 1, moves_made = {(0,0)}, mines = {}, safes = {(0,0)}, knowledge = []\<rparr>)
     = None"
proof -
  let ?a = "\<lparr>height = 1, width = 2, moves_made = {(0,0)}, mines = {}, safes = {(0,0), (0,1)}, knowledge = []\<rparr>"
  let ?b = "\<lparr>height = 1, width = 1, moves_made = {(0,0)}, mines = {}, safes = {(0,0)}, knowledge = []\<rparr>"
  have r: "\<forall>n>0. (\<lambda>n. 0::nat) n < n" by simp
  have e: "enumerates (sorted_list_of_set :: cell set \<Rightarrow> cell list)" by simp
  have "safes ?a - moves_made ?a \<noteq> {}" by auto
  moreover have "{(i, j). 0 \<le> i \<and> i < height ?b \<and> 0 \<le> j \<and> j < width ?b} - mines ?b - moves_made ?b = {}"
    by auto
  ultimately show ?thesis
    using moves_choose_candidates[OF e r, of ?a] moves_choose_candidates[OF e r, of ?b]
    by (auto split: option.splits)
qed

subsection \<open>Truthful histories\<close>

text \<open>
  Claim C1, as amended.  For every history of truthful calls on a board (each observed
  cell lies on the board and holds no mine, each count is the one \<open>nearby_mines\<close> reports),
  starting from the initial state for that board, the sets \<open>mines\<close> and \<open>safes\<close> are
  disjoint after the last call.  Both sets only grow during a call, so they are disjoint
  at every point of it as well.
\<close>

theorem truthful_run_disjoint:
  assumes "\<forall>call \<in> set calls. truthful g call"
  shows "mines (run (init_ai (board_height g) (board_width g)) calls) \<inter>
         safes (run (init_ai (board_height g) (board_width g)) calls) = {}"
  using sound_run[OF assms] unfolding sound_def by auto

theorem truthful_run_disjoint_witness:
  "truthful \<lparr>board_height = 1, board_width = 3, board = [[False, False, True]]\<rparr> (sorted_iteration, (0,1), 1) \<and>
   truthful \<lparr>board_height = 1, board_width = 3, board = [[False, False, True]]\<rparr> (sorted_iteration, (0,0), 0) \<and>
   mines (run (init_ai 1 3) [(sorted_iteration, (0,1), 1), (sorted_iteration, (0,0), 0)]) \<inter>
   safes (run (init_ai 1 3) [(sorted_iteration, (0,1), 1), (sorted_iteration, (0,0), 0)]) = {}"
proof -
  let ?g = "\<lparr>board_height = 1, board_width = 3, board = [[False, False, True]]\<rparr>"
  have n: "nearby_mines ?g (0,1) = 1" "nearby_mines ?g (0,0) = 0" by code_simp+
  have t: "truthful ?g (sorted_iteration, (0,1), 1)" "truthful ?g (sorted_iteration, (0,0), 0)"
    by (simp_all add: truthful_def n)
  then have "\<forall>call \<in> set [(sorted_iteration, (0,1), 1), (sorted_iteration, (0,0), 0)]. truthful ?g call"
    by simp
  from truthful_run_disjoint[OF this] t show ?thesis by simp
qed

text \<open>
  The claim as it stands, for any sequence of calls, fails on the board of one row and
  two columns: the call for \<open>(0,0)\<close> with count 1 marks the only neighbour \<open>(0,1)\<close> as a mine,
  and the call for \<open>(0,1)\<close> then marks \<open>(0,1)\<close> safe.  Every set of cells the two calls
  iterate over has a single element, and the order of \<open>index_set\<close> only permutes the pool.
\<close>

theorem mines_safes_overlap_counterexample:
  "(0,1) \<in> mines (run (init_ai 1 2) [(sorted_iteration, (0,0), 1), (sorted_iteration, (0,1), 0)]) \<and>
   (0,1) \<in> safes (run (init_ai 1 2) [(sorted_iteration, (0,0), 1), (sorted_iteration, (0,1), 0)])"
  by code_simp

text \<open>
  Claim C2, as amended.  For every history of truthful calls on a board, starting from
  the initial state for that board, every sentence of the pool has a count between 0 and
  the number of its cells.
\<close>

theorem truthful_run_count_bounded:
  assumes "\<forall>call \<in> set calls. truthful g call"
  shows "count_bounded (run (init_ai (board_height g) (board_width g)) calls)"
proof -
  have "0 \<le> count s \<and> count s \<le> int (card (cells s))" if "holds_in (mine_cells g) s" for s
  proof -
    from that have f: "finite (cells s)" and c: "count s = int (card (cells s \<inter> mine_cells g))"
      by (simp_all add: holds_in_def)
    have "card (cells s \<inter> mine_cells g) \<le> card (cells s)" using f by (intro card_mono) auto
    then show ?thesis using c by simp
  qed
  then show ?thesis using sound_run[OF assms] unfolding sound_def count_bounded_def by blast
qed

theorem truthful_run_count_bounded_witness:
  "truthful \<lparr>board_height = 1, board_width = 3, board = [[False, False, True]]\<rparr> (sorted_iteration, (0,0), 0) \<and>
   truthful \<lparr>board_height = 1, board_width = 3, board = [[False, False, True]]\<rparr> (sorted_iteration, (0,1), 1) \<and>
   count_bounded (run (init_ai 1 3) [(sorted_iteration, (0,0), 0), (sorted_iteration, (0,1), 1)])"
proof -
  let ?g = "\<lparr>board_height = 1, board_width = 3, board = [[False, False, True]]\<rparr>"
  have n: "nearby_mines ?g (0,1) = 1" "nearby_mines ?g (0,0) = 0" by code_simp+
  have t: "truthful ?g (sorted_iteration, (0,0), 0)" "truthful ?g (sorted_iteration, (0,1), 1)"
    by (simp_all add: truthful_def n)
  then have "\<forall>call \<in> set [(sorted_iteration, (0,0), 0), (sorted_iteration, (0,1), 1)]. truthful ?g call"
    by simp
  from truthful_run_count_bounded[OF this] t show ?thesis by simp
qed

text \<open>
  The claim as it stands, for every reachable state, fails on the board of two rows and
  three columns.  The call for \<open>(0,1)\<close> with count 1 (of 5 neighbours) leaves the sentence
  over the five neighbours with count 1; the call for \<open>(0,0)\<close> with count 3 (of 3
  neighbours) removes \<open>(0,0)\<close> from it as safe and \<open>(1,0)\<close> and \<open>(1,1)\<close> as mines, which
  leaves \<open>{(0,2), (1,2)}\<close> with count \<open>-1\<close>, whatever the order of the three marks is.
\<close>

theorem count_below_zero_counterexample:
  "Sentence {(0,2), (1,2)} (- 1) \<in>
     set (knowledge (run (init_ai 2 3) [(sorted_iteration, (0,1), 1), (sorted_iteration, (0,0), 3)])) \<and>
   \<not> count_bounded (run (init_ai 2 3) [(sorted_iteration, (0,1), 1), (sorted_iteration, (0,0), 3)])"
  by code_simp

subsection \<open>One pass of inference\<close>

text \<open>
  Claim C3, as amended.  When \<open>add_knowledge(cell, count)\<close> returns, for iteration orders
  that visit every element and a pool of finite cell sets: direct inference has been
  applied once to the sentence of the observation (with count 0 all neighbours of the
  cell inside the board are in \<open>safes\<close>; with a count that is not 0 and equals their number
  all of them are in \<open>mines\<close>); and one pass of subset inference has been made over all
  ordered pairs of pool positions, row by row.  The sentences derived are exactly the
  differences \<open>(B.cells - A.cells, B.count - A.count)\<close> for the pairs of positions \<open>(i, j)\<close>
  whose sentences \<open>A\<close> and \<open>B\<close>, as they stand when the pair is visited, have
  \<open>A.cells\<close> strictly inside \<open>B.cells\<close>.  Every derived sentence has its cell set held by
  a sentence of the returned pool, has its cells in \<open>safes\<close> when its count is 0, and in
  \<open>mines\<close> when its count is the number of its cells.  The pass is made once, and derived
  sentences are compared with nothing: the returned pool need not be closed under
  subset inference.
\<close>

theorem add_knowledge_one_pass:
  assumes "valid_iteration it" and "\<forall>s \<in> set (knowledge a). finite (cells s)"
  shows "(cnt = 0 \<longrightarrow> neighbor_cells (height a) (width a) cell \<subseteq> safes (add_knowledge it a cell cnt)) \<and>
         (cnt \<noteq> 0 \<and> cnt = int (card (neighbor_cells (height a) (width a) cell)) \<longrightarrow>
            neighbor_cells (height a) (width a) cell \<subseteq> mines (add_knowledge it a cell cnt)) \<and>
         set (derived it a cell cnt) =
           {d. \<exists>i < length (knowledge (before_pass it a cell cnt)).
               \<exists>j < length (knowledge (before_pass it a cell cnt)).
                 derives (fst (visited it (before_pass it a cell cnt) i j)) i j d} \<and>
         (\<forall>d \<in> set (derived it a cell cnt).
            has_cells (cells d) (add_knowledge it a cell cnt) \<and> marked (add_knowledge it a cell cnt) d)"
proof -
  let ?N = "neighbor_cells (height a) (width a) cell"
  let ?a3 = "before_pass it a cell cnt"
  let ?r = "add_knowledge it a cell cnt"
  have en: "enumerates (nbr_iter it)" and ew: "\<forall>i j. enumerates (new_iter it i j)"
    and ei: "enumerates (idx_iter it)"
    using assms(1) by (simp_all add: valid_iteration_def)
  have s: "safes ?r = safes (fst (infer_pass it ?a3))"
    and m: "mines ?r = mines (fst (infer_pass it ?a3))"
    by (simp_all add: inferred_eq before_pass_def)
  have grow: "safes ?a3 \<subseteq> safes ?r" "mines ?a3 \<subseteq> mines ?r"
    unfolding s m by (rule infer_pass_grows)+
  have 1: "cnt = 0 \<longrightarrow> ?N \<subseteq> safes ?r"
    using direct_marks_marked(1)[OF en, of ?N cnt "observe a cell cnt"] grow(1)
    unfolding before_pass_def by auto
  have 2: "cnt \<noteq> 0 \<and> cnt = int (card ?N) \<longrightarrow> ?N \<subseteq> mines ?r"
    using direct_marks_marked(2)[OF en, of ?N cnt "observe a cell cnt"] grow(2)
    unfolding before_pass_def by auto
  have "finite_pool a" using assms(2) by (simp add: finite_pool_def)
  then have "finite_pool ?a3"
    unfolding before_pass_def by (intro finite_pool_direct_marks finite_pool_observe)
  then have mp: "marked_pass (infer_pass it ?a3)" using ew by (rule marked_infer_pass)
  have 3: "has_cells (cells d) ?r \<and> marked ?r d" if d: "d \<in> set (derived it a cell cnt)" for d
  proof -
    from d have "d \<in> set (knowledge (inferred it a cell cnt))"
      unfolding derived_def before_pass_def inferred_eq by simp
    then have "has_cells (cells d) (inferred it a cell cnt)" unfolding has_cells_def by blast
    then have h: "has_cells (cells d) ?r"
      unfolding add_knowledge_def has_cells_reduce[OF ei] .
    from mp d have "marked (fst (infer_pass it ?a3)) d"
      unfolding marked_pass_def derived_def by blast
    then have "marked ?r d" unfolding marked_def s m .
    with h show ?thesis ..
  qed
  have 4: "set (derived it a cell cnt) =
           {d. \<exists>i < length (knowledge ?a3). \<exists>j < length (knowledge ?a3).
                 derives (fst (visited it ?a3 i j)) i j d}"
    unfolding derived_def by (rule infer_pass_derives)
  from 1 2 3 4 show ?thesis by blast
qed

text \<open>
  The witness: the neighbours of a call with count 0 and of a call with a full count, and
  a state holding \<open>{(0,0), (0,1), (0,2)} = 1\<close> at position 0 and \<open>{(0,0), (0,1)} = 1\<close> at
  position 1, for which the pair \<open>(1, 0)\<close> derives \<open>{(0,2)} = 0\<close> and \<open>(0,2)\<close> is marked safe.
\<close>

theorem add_knowledge_one_pass_witness:
  "{(0,1)} \<subseteq> safes (add_knowledge sorted_iteration (init_ai 1 3) (0,0) 0) \<and>
   {(0,1)} \<subseteq> mines (add_knowledge sorted_iteration (init_ai 1 2) (0,0) 1) \<and>
   Sentence {(0,2)} 0 \<in> set (derived sorted_iteration
      \<lparr>height = 3, width = 3, moves_made = {}, mines = {}, safes = {},
       knowledge = [Sentence {(0,0), (0,1), (0,2)} 1, Sentence {(0,0), (0,1)} 1]\<rparr> (2,2) 1) \<and>
   has_cells {(0,2)} (add_knowledge sorted_iteration
      \<lparr>height = 3, width = 3, moves_made = {}, mines = {}, safes = {},
       knowledge = [Sentence {(0,0), (0,1), (0,2)} 1, Sentence {(0,0), (0,1)} 1]\<rparr> (2,2) 1) \<and>
   {(0,2)} \<subseteq> safes (add_knowledge sorted_iteration
      \<lparr>height = 3, width = 3, moves_made = {}, mines = {}, safes = {},
       knowledge = [Sentence {(0,0), (0,1), (0,2)} 1, Sentence {(0,0), (0,1)} 1]\<rparr> (2,2) 1)"
proof -
  let ?D = "\<lparr>height = 3, width = 3, moves_made = {}, mines = {}, safes = {},
       knowledge = [Sentence {(0,0), (0,1), (0,2)} 1, Sentence {(0,0), (0,1)} 1]\<rparr>"
  have f0: "\<forall>s \<in> set (knowledge (init_ai h w)). finite (cells s)" for h w
    by (simp add: init_ai_def)
  have fD: "\<forall>s \<in> set (knowledge ?D). finite (cells s)" by (simp add: Sentence_def)
  have n: "neighbor_cells 1 3 (0,0) = {(0,1)}" "neighbor_cells 1 2 (0,0) = {(0,1)}" by code_simp+
  have 1: "{(0,1)} \<subseteq> safes (add_knowledge sorted_iteration (init_ai 1 3) (0,0) 0)"
    using add_knowledge_one_pass[OF valid_sorted_iteration f0, of 0 1 3 "(0,0)"] n
    by (simp add: init_ai_def)
  have 2: "{(0,1)} \<subseteq> mines (add_knowledge sorted_iteration (init_ai 1 2) (0,0) 1)"
    using add_knowledge_one_pass[OF valid_sorted_iteration f0, of 1 1 2 "(0,0)"] n
    by (simp add: init_ai_def)
  have len: "length (knowledge (before_pass sorted_iteration ?D (2,2) 1)) = 4" by code_simp
  have der: "derives (fst (visited sorted_iteration (before_pass sorted_iteration ?D (2,2) 1) 1 0)) 1 0
               (Sentence {(0,2)} 0)"
    by code_simp
  note inst = add_knowledge_one_pass[OF valid_sorted_iteration fD, of 1 "(2,2)"]
  have "Sentence {(0,2)} 0 \<in>
      {d. \<exists>i < length (knowledge (before_pass sorted_iteration ?D (2,2) 1)).
          \<exists>j < length (knowledge (before_pass sorted_iteration ?D (2,2) 1)).
            derives (fst (visited sorted_iteration (before_pass sorted_iteration ?D (2,2) 1) i j)) i j d}"
    unfolding len using der by (intro CollectI exI[of _ 1] exI[of _ 0] conjI) simp_all
  with inst have 3: "Sentence {(0,2)} 0 \<in> set (derived sorted_iteration ?D (2,2) 1)" by blast
  with inst have "has_cells (cells (Sentence {(0,2)} 0)) (add_knowledge sorted_iteration ?D (2,2) 1) \<and>
                 marked (add_knowledge sorted_iteration ?D (2,2) 1) (Sentence {(0,2)} 0)"
    by blast
  then have 4: "has_cells {(0,2)} (add_knowledge sorted_iteration ?D (2,2) 1)"
    and 5: "{(0,2)} \<subseteq> safes (add_knowledge sorted_iteration ?D (2,2) 1)"
    by (simp_all add: marked_def Sentence_def)
  from 1 2 3 4 5 show ?thesis by blast
qed

text \<open>
  The claim as it stands, a fixed point of subset inference, fails for truthful calls.
  On the board of two rows and three columns with its only mine at \<open>(1,2)\<close>, after the
  calls for \<open>(0,0)\<close> with count 0 and for \<open>(0,1)\<close> with count 1 the pool holds \<open>{(1,0)} = 0\<close>
  and \<open>{(0,2), (1,0), (1,1), (1,2)} = 1\<close> but not their difference
  \<open>{(0,2), (1,1), (1,2)} = 1\<close>: the larger sentence was derived in the pass and is
  compared with nothing.  The second call makes no mark and the first leaves the same
  set of sentences for every order, so the pool does not depend on the order of
  iteration.
\<close>

theorem no_fixed_point_counterexample:
  "truthful \<lparr>board_height = 2, board_width = 3, board = [[False, False, False], [False, False, True]]\<rparr>
     (sorted_iteration, (0,0), 0) \<and>
   truthful \<lparr>board_height = 2, board_width = 3, board = [[False, False, False], [False, False, True]]\<rparr>
     (sorted_iteration, (0,1), 1) \<and>
   Sentence {(1,0)} 0 \<in>
     set (knowledge (run (init_ai 2 3) [(sorted_iteration, (0,0), 0), (sorted_iteration, (0,1), 1)])) \<and>
   Sentence {(0,2), (1,0), (1,1), (1,2)} 1 \<in>
     set (knowledge (run (init_ai 2 3) [(sorted_iteration, (0,0), 0), (sorted_iteration, (0,1), 1)])) \<and>
   Sentence {(0,2), (1,1), (1,2)} 1 \<notin>
     set (knowledge (run (init_ai 2 3) [(sorted_iteration, (0,0), 0), (sorted_iteration, (0,1), 1)])) \<and>
   \<not> subset_fixed (run (init_ai 2 3) [(sorted_iteration, (0,0), 0), (sorted_iteration, (0,1), 1)])"
proof -
  let ?g = "\<lparr>board_height = 2, board_width = 3, board = [[False, False, False], [False, False, True]]\<rparr>"
  let ?r = "run (init_ai 2 3) [(sorted_iteration, (0,0), 0), (sorted_iteration, (0,1), 1)]"
  have n: "nearby_mines ?g (0,0) = 0" "nearby_mines ?g (0,1) = 1" by code_simp+
  have t: "truthful ?g (sorted_iteration, (0,0), 0)" "truthful ?g (sorted_iteration, (0,1), 1)"
    by (simp_all add: truthful_def n)
  have 1: "Sentence {(1,0)} 0 \<in> set (knowledge ?r)"
    "Sentence {(0,2), (1,0), (1,1), (1,2)} 1 \<in> set (knowledge ?r)"
    "Sentence {(0,2), (1,1), (1,2)} 1 \<notin> set (knowledge ?r)"
    "\<not> subset_fixed ?r"
    by code_simp+
  from t 1 show ?thesis by blast
qed

end
